theory Spec2Isabelle
  imports Complex_Main
begin

section \<open>Text embedding notebook: batching utility\<close>

text \<open>
  Python's \<^verbatim>\<open>range(i, stop, step)\<close> for a positive step, as the list of its values.
  \<^verbatim>\<open>chunks\<close> below only calls it with \<^verbatim>\<open>step = max(1, n)\<close>, so the step is never
  zero there (Python raises \<^verbatim>\<open>ValueError\<close> on a zero step).
\<close>

function range_step :: "nat \<Rightarrow> nat \<Rightarrow> nat \<Rightarrow> nat list" where
  "range_step i stop step =
     (if i < stop \<and> 0 < step then i # range_step (i + step) stop step else [])"
  by pat_completeness auto
termination
  by (relation "measure (\<lambda>(i, stop, step). stop - i)") auto

declare range_step.simps [simp del]

text \<open>The slice \<^verbatim>\<open>xs[i:j]\<close> for indices \<open>0 \<le> i \<le> j\<close>; Python clips it at the end of the list.\<close>

definition slice :: "'a list \<Rightarrow> nat \<Rightarrow> nat \<Rightarrow> 'a list" where
  "slice xs i j = take (j - i) (drop i xs)"

text \<open>
  \<^verbatim>\<open>
  def chunks(xs, n=3):
      n = max(1, n)
      return [xs[i:i + n] for i in range(0, len(xs), n)]
  \<close>
\<close>

definition chunks :: "'a list \<Rightarrow> int \<Rightarrow> 'a list list" where
  "chunks xs n =
     (let n = nat (max 1 n)
      in map (\<lambda>i. slice xs i (i + n)) (range_step 0 (length xs) n))"

section \<open>Text embedding notebook: embedding entries\<close>

text \<open>Python's \<^verbatim>\<open>str\<close> on an integer: its decimal digits, with a minus sign when negative.\<close>

fun str_nat :: "nat \<Rightarrow> string" where
  "str_nat n =
     (if n < 10 then [''0123456789'' ! n]
      else str_nat (n div 10) @ [''0123456789'' ! (n mod 10)])"

declare str_nat.simps [simp del]

definition str :: "int \<Rightarrow> string" where
  "str i = (if i < 0 then CHR ''-'' # str_nat (nat (- i)) else str_nat (nat i))"

text \<open>
  One dictionary appended to \<^verbatim>\<open>res\<close>. The vector type \<open>'v\<close> stands for the list of
  floating-point components in \<^verbatim>\<open>embeddings[i].values\<close>, which the notebook only passes on.
\<close>

record 'v entry =
  companyName :: string
  cusip :: string
  seqId :: int
  contextId :: string
  textEmbedding :: 'v
  text' :: string

text \<open>
  What can stop \<^verbatim>\<open>create_text_embedding_entries\<close>: an exception \<open>'e\<close> raised by the
  embedding call, or the \<^verbatim>\<open>IndexError\<close> of \<^verbatim>\<open>embeddings[i]\<close> when the model returned fewer
  vectors than it was given texts.
\<close>

datatype 'e error = Raised 'e | IndexError

text \<open>
  The inner loop
  \<^verbatim>\<open>
  for i in range(len(d)):
      seq_id += 1
      res.append({'companyName': company_name, 'cusip': cusip, 'seqId': seq_id,
                  'contextId': company_name + str(seq_id),
                  'textEmbedding': embeddings[i].values, 'text': d[i]})
  \<close>
  from index \<open>i\<close> on, returning the updated \<^verbatim>\<open>seq_id\<close> and \<^verbatim>\<open>res\<close>.
\<close>

function append_entries ::
  "string \<Rightarrow> string \<Rightarrow> string list \<Rightarrow> 'v list \<Rightarrow> nat \<Rightarrow> int \<Rightarrow> 'v entry list
     \<Rightarrow> 'e error + (int \<times> 'v entry list)" where
  "append_entries company_name cusip' d embeddings i seq_id res =
     (if i < length d then
        (if i < length embeddings then
           append_entries company_name cusip' d embeddings (i + 1) (seq_id + 1)
             (res @ [\<lparr>companyName = company_name, cusip = cusip', seqId = seq_id + 1,
                      contextId = company_name @ str (seq_id + 1),
                      textEmbedding = embeddings ! i, text' = d ! i\<rparr>])
         else Inl IndexError)
      else Inr (seq_id, res))"
  by pat_completeness auto
termination
  by (relation "measure (\<lambda>(company_name, cusip', d, embeddings, i, seq_id, res). length d - i)")
    auto

declare append_entries.simps [simp del]

text \<open>
  The outer loop \<^verbatim>\<open>for d in chunks(docs)\<close>. The hosted embedding model is a parameter:
  \<open>get_embeddings m d\<close> is the answer of the model in state \<open>m\<close> to the batch \<open>d\<close> (the
  vectors, or the exception it raises) together with the model's next state. The
  \<^verbatim>\<open>time.sleep(1)\<close> after each call changes no value and is left out.
\<close>

fun embed_batches ::
  "('m \<Rightarrow> string list \<Rightarrow> ('e + 'v list) \<times> 'm) \<Rightarrow> string \<Rightarrow> string \<Rightarrow> string list list
     \<Rightarrow> 'm \<Rightarrow> int \<Rightarrow> 'v entry list \<Rightarrow> ('e error + 'v entry list) \<times> 'm" where
  "embed_batches get_embeddings company_name cusip' [] m seq_id res = (Inr res, m)"
| "embed_batches get_embeddings company_name cusip' (d # ds) m seq_id res =
     (case get_embeddings m d of
        (Inl e, m') \<Rightarrow> (Inl (Raised e), m')
      | (Inr embeddings, m') \<Rightarrow>
          (case append_entries company_name cusip' d embeddings 0 seq_id res of
             Inl err \<Rightarrow> (Inl err, m')
           | Inr (seq_id', res') \<Rightarrow>
               embed_batches get_embeddings company_name cusip' ds m' seq_id' res'))"

text \<open>
  \<^verbatim>\<open>
  def create_text_embedding_entries(input_text:str, company_name: str, cusip: str):
      text_splitter = RecursiveCharacterTextSplitter(chunk_size = 2000, chunk_overlap = 15,
          length_function = len, is_separator_regex = False)
      docs = text_splitter.split_text(input_text)
      res = []
      seq_id = -1
      for d in chunks(docs): ...
      return res
  \<close>
  The splitter is the library's; it is a parameter \<open>splitter chunk_size chunk_overlap\<close>
  from a text to its chunks.
\<close>

definition create_text_embedding_entries ::
  "(nat \<Rightarrow> nat \<Rightarrow> string \<Rightarrow> string list) \<Rightarrow> ('m \<Rightarrow> string list \<Rightarrow> ('e + 'v list) \<times> 'm)
     \<Rightarrow> 'm \<Rightarrow> string \<Rightarrow> string \<Rightarrow> string \<Rightarrow> ('e error + 'v entry list) \<times> 'm" where
  "create_text_embedding_entries splitter get_embeddings m input_text company_name cusip' =
     (let docs = splitter 2000 15 input_text
      in embed_batches get_embeddings company_name cusip' (chunks docs 3) m (- 1) [])"

text \<open>
  The cell that embeds the filings:
  \<^verbatim>\<open>
  embedding_entries = []
  for file_name in file_names:
      ...
      embedding_entries.extend(create_text_embedding_entries(
          f10_k['item1'], f10_k['companyName'], f10_k['cusip']))
  \<close>
  over the filings the loop opens (the files with \<^verbatim>\<open>.txt\<close> in their name, parsed as JSON),
  in the order of the loop; reading the directory and the files is left out, as is the
  progress counter. An exception leaves the loop.
\<close>

record f10_k =
  item1 :: string
  f_companyName :: string
  f_cusip :: string

fun embed_filings ::
  "(nat \<Rightarrow> nat \<Rightarrow> string \<Rightarrow> string list) \<Rightarrow> ('m \<Rightarrow> string list \<Rightarrow> ('e + 'v list) \<times> 'm)
     \<Rightarrow> 'm \<Rightarrow> 'v entry list \<Rightarrow> f10_k list \<Rightarrow> ('e error + 'v entry list) \<times> 'm" where
  "embed_filings splitter get_embeddings m embedding_entries [] = (Inr embedding_entries, m)"
| "embed_filings splitter get_embeddings m embedding_entries (f # fs) =
     (case create_text_embedding_entries splitter get_embeddings m
             (item1 f) (f_companyName f) (f_cusip f) of
        (Inl err, m') \<Rightarrow> (Inl err, m')
      | (Inr res, m') \<Rightarrow>
          embed_filings splitter get_embeddings m' (embedding_entries @ res) fs)"

text \<open>
  The embedding model on its own, asked the batches \<open>ds\<close> one after the other from state
  \<open>m\<close>. \<open>model_after\<close> is its state once it has answered every batch with at least as many
  vectors as the batch has texts (\<open>None\<close> if some answer is an exception or too short).
  \<open>returned_vectors\<close> lists, in order, the vector it returns for each text: the first
  \<open>length d\<close> vectors of its answer to each batch \<open>d\<close>.
\<close>

fun model_after ::
  "('m \<Rightarrow> string list \<Rightarrow> ('e + 'v list) \<times> 'm) \<Rightarrow> 'm \<Rightarrow> string list list \<Rightarrow> 'm option" where
  "model_after get_embeddings m [] = Some m"
| "model_after get_embeddings m (d # ds) =
     (case get_embeddings m d of
        (Inl e, m') \<Rightarrow> None
      | (Inr embeddings, m') \<Rightarrow>
          (if length d \<le> length embeddings then model_after get_embeddings m' ds else None))"

fun returned_vectors ::
  "('m \<Rightarrow> string list \<Rightarrow> ('e + 'v list) \<times> 'm) \<Rightarrow> 'm \<Rightarrow> string list list \<Rightarrow> 'v list" where
  "returned_vectors get_embeddings m [] = []"
| "returned_vectors get_embeddings m (d # ds) =
     (case get_embeddings m d of
        (Inl e, m') \<Rightarrow> []
      | (Inr embeddings, m') \<Rightarrow>
          take (length d) embeddings @ returned_vectors get_embeddings m' ds)"

section \<open>Text embedding notebook: loading the graph\<close>

text \<open>
  The part of the graph store the upsert query reads and writes. A node is identified
  by its position in the list of the nodes of its label; the query deletes nothing, so
  positions are stable. A Company node carries the \<open>cusip\<close> the query matches on. A
  Document node carries its \<open>documentId\<close> and the four properties the query sets,
  absent (\<open>None\<close>) until they are set. A \<open>HAS\<close> relationship is the pair of the
  positions of its Company and its Document.
\<close>

record company =
  company_cusip :: string
  company_companyName :: string

record 'v document =
  documentId :: string
  documentType :: "string option"
  document_seqId :: "int option"
  document_textEmbedding :: "'v option"
  document_text :: "string option"

record 'v store =
  companies :: "company list"
  documents :: "'v document list"
  has :: "(nat \<times> nat) list"

text \<open>
  The query of the loading cell, clause by clause; each clause maps the rows it receives,
  in order, to the rows it passes on.
  \<^verbatim>\<open>
  UNWIND $records AS record
  MATCH(c:Company {cusip:record.cusip})
  MERGE(b:Document {documentId:record.contextId})
  SET b.documentType = 'FORM_10K_ITEM1', b.seqId = record.seqId,
      b.textEmbedding = record.textEmbedding, b.text = record.text
  MERGE(c)-[:HAS]->(b)
  RETURN count(b) as cnt
  \<close>
  \<^verbatim>\<open>UNWIND\<close> makes one row of each record. \<^verbatim>\<open>MATCH\<close> replaces a row by one row for each
  Company node whose \<open>cusip\<close> is the record's: by none when there is no such node.
\<close>

definition match_company :: "'v store \<Rightarrow> 'v entry list \<Rightarrow> ('v entry \<times> nat) list" where
  "match_company st rows =
     concat (map (\<lambda>record.
        map (\<lambda>c. (record, c))
          (filter (\<lambda>c. company_cusip (companies st ! c) = cusip record)
             [0..<length (companies st)])) rows)"

text \<open>
  \<^verbatim>\<open>MERGE(b:Document {documentId:record.contextId})\<close>: for each row in turn, \<open>b\<close> ranges over
  the Document nodes with that \<open>documentId\<close>, among them the nodes created for the rows
  before; when there is none, one is created with that \<open>documentId\<close> alone.
\<close>

fun merge_document ::
  "'v store \<Rightarrow> ('v entry \<times> nat) list \<Rightarrow> 'v store \<times> ('v entry \<times> nat \<times> nat) list" where
  "merge_document st [] = (st, [])"
| "merge_document st ((record, c) # rows) =
     (let bs = filter (\<lambda>b. documentId (documents st ! b) = contextId record)
                 [0..<length (documents st)];
          st1 = (if bs = [] then
                   st\<lparr>documents := documents st @
                     [\<lparr>documentId = contextId record, documentType = None,
                       document_seqId = None, document_textEmbedding = None,
                       document_text = None\<rparr>]\<rparr>
                 else st);
          bs1 = (if bs = [] then [length (documents st)] else bs);
          (st2, out) = merge_document st1 rows
      in (st2, map (\<lambda>b. (record, c, b)) bs1 @ out))"

declare merge_document.simps(2) [simp del]

text \<open>\<^verbatim>\<open>SET b.documentType = 'FORM_10K_ITEM1', b.seqId = record.seqId, ...\<close>, row by row.\<close>

fun set_properties :: "'v store \<Rightarrow> ('v entry \<times> nat \<times> nat) list \<Rightarrow> 'v store" where
  "set_properties st [] = st"
| "set_properties st ((record, c, b) # rows) =
     set_properties
       (st\<lparr>documents := (documents st)
          [b := (documents st ! b)
             \<lparr>documentType := Some ''FORM_10K_ITEM1'',
              document_seqId := Some (seqId record),
              document_textEmbedding := Some (textEmbedding record),
              document_text := Some (text' record)\<rparr>]\<rparr>)
       rows"

text \<open>
  \<^verbatim>\<open>MERGE(c)-[:HAS]->(b)\<close>, row by row: the relationship is created unless one from
  \<open>c\<close> to \<open>b\<close> is there already.
\<close>

fun merge_has :: "'v store \<Rightarrow> ('v entry \<times> nat \<times> nat) list \<Rightarrow> 'v store" where
  "merge_has st [] = st"
| "merge_has st ((record, c, b) # rows) =
     merge_has (if (c, b) \<in> set (has st) then st else st\<lparr>has := has st @ [(c, b)]\<rparr>) rows"

text \<open>The whole query on the records of one batch: the new store and \<open>cnt\<close>.\<close>

definition upsert_query :: "'v store \<Rightarrow> 'v entry list \<Rightarrow> 'v store \<times> nat" where
  "upsert_query st records =
     (let rows = match_company st records;
          (st1, rows1) = merge_document st rows;
          st2 = set_properties st1 rows1;
          st3 = merge_has st2 rows1
      in (st3, length rows1))"

text \<open>
  Whether the store has a Company node for a record: one whose \<open>cusip\<close> is the record's.
\<close>

definition has_company :: "'v store \<Rightarrow> 'v entry \<Rightarrow> bool" where
  "has_company st record = (\<exists>c \<in> set (companies st). company_cusip c = cusip record)"

text \<open>
  The loading loop; the data frame round trip \<^verbatim>\<open>pd.DataFrame(...).to_dict(orient='records')\<close>
  before it gives the entries back as they were.
  \<^verbatim>\<open>
  total = len(emb_entries)
  count = 0
  for d in chunks(emb_entries, 100):
      gds.run_cypher(<the query>, params = {'records':d})
      count += len(d)
      print(f'loaded {count} of {total}')
  \<close>
  The database server is a parameter: \<open>run_cypher s d\<close> is the outcome of the call with
  the batch \<open>d\<close> for the server in state \<open>s\<close>, that is the exception the call raises, if
  any, and the next state of the server. An exception leaves the loop. The loop returns
  the exception that ended it, if any, the server's last state and the printed pairs of
  \<open>count\<close> and \<open>total\<close>.
\<close>

fun load_batches ::
  "('s \<Rightarrow> 'v entry list \<Rightarrow> 'x option \<times> 's) \<Rightarrow> nat \<Rightarrow> 'v entry list list \<Rightarrow> 's \<Rightarrow> nat
     \<Rightarrow> (nat \<times> nat) list \<Rightarrow> 'x option \<times> 's \<times> (nat \<times> nat) list" where
  "load_batches run_cypher total' [] s count printed = (None, s, printed)"
| "load_batches run_cypher total' (d # ds) s count printed =
     (case run_cypher s d of
        (Some x, s') \<Rightarrow> (Some x, s', printed)
      | (None, s') \<Rightarrow>
          load_batches run_cypher total' ds s' (count + length d)
            (printed @ [(count + length d, total')]))"

definition load_documents ::
  "('s \<Rightarrow> 'v entry list \<Rightarrow> 'x option \<times> 's) \<Rightarrow> 's \<Rightarrow> 'v entry list
     \<Rightarrow> 'x option \<times> 's \<times> (nat \<times> nat) list" where
  "load_documents run_cypher s emb_entries =
     load_batches run_cypher (length emb_entries) (chunks emb_entries 100) s 0 []"

text \<open>
  The loading loop against a graph store: the server runs the upsert query, which raises
  nothing on a store of this form. \<open>load_graph\<close> is the store the loop leaves.
\<close>

definition load_graph :: "'v store \<Rightarrow> 'v entry list \<Rightarrow> 'v store" where
  "load_graph st emb_entries =
     fst (snd (load_documents (\<lambda>s d. (None :: unit option, fst (upsert_query s d)))
       st emb_entries))"

section \<open>Chatbot notebook\<close>

text \<open>
  \<^verbatim>\<open>
  def chat_response(input_text,history):
      try:
          return agent_chain(input_text)
      except:
          return "I'm sorry, there was an error retrieving the information you requested."
  \<close>
  The hosted completion model behind \<^verbatim>\<open>agent_chain\<close> is a parameter: \<open>agent_chain m t\<close> is
  its answer in state \<open>m\<close> to the text \<open>t\<close> (the completion, or the exception it raises)
  and its next state. The bare \<^verbatim>\<open>except\<close> catches every exception. \<open>history\<close> is the list
  of the earlier turns that the chat widget passes in.
\<close>

definition apology :: string where
  "apology = ''I'm sorry, there was an error retrieving the information you requested.''"

definition chat_response ::
  "('m \<Rightarrow> string \<Rightarrow> ('e + string) \<times> 'm) \<Rightarrow> 'm \<Rightarrow> string \<Rightarrow> (string \<times> string) list
     \<Rightarrow> string \<times> 'm" where
  "chat_response agent_chain m input_text history =
     (case agent_chain m input_text of
        (Inr completion, m') \<Rightarrow> (completion, m')
      | (Inl e, m') \<Rightarrow> (apology, m'))"

section \<open>Properties of the batching utility\<close>

lemma range_step_length:
  "0 < step \<Longrightarrow> length (range_step i stop step) = (stop - i + step - 1) div step"
proof (induction i stop step rule: range_step.induct)
  case (1 i stop step)
  show ?case
  proof (cases "i < stop")
    case True
    have "(stop - i + step - 1) div step = Suc ((stop - (i + step) + step - 1) div step)"
    proof (cases "stop \<le> i + step")
      case le: True
      have a: "step \<le> stop - i + step - 1" using True by simp
      have b: "stop - i + step - 1 < 2 * step" using True le "1.prems" by simp
      have "(stop - i + step - 1) div step = 1"
        using a b by (intro div_nat_eqI) simp_all
      moreover have "(stop - (i + step) + step - 1) div step = 0"
        using le "1.prems" by simp
      ultimately show ?thesis by simp
    next
      case False
      define x where "x = stop - (i + step) + step - 1"
      have "stop - i + step - 1 = x + step"
        using False by (simp add: x_def)
      moreover have "(x + step) div step = Suc (x div step)"
        using "1.prems" div_add_self2 [of step x] by simp
      ultimately show ?thesis
        by (simp only: x_def)
    qed
    then show ?thesis
      using True "1.prems" "1.IH" by (subst range_step.simps) simp
  next
    case False
    then show ?thesis using "1.prems" by (subst range_step.simps) simp
  qed
qed

lemma range_step_bound: "j \<in> set (range_step i stop step) \<Longrightarrow> j < stop"
proof (induction i stop step rule: range_step.induct)
  case (1 i stop step)
  then show ?case
    by (subst (asm) (2) range_step.simps) (auto split: if_splits)
qed

lemma concat_slices:
  "0 < n \<Longrightarrow> concat (map (\<lambda>i. slice xs i (i + n)) (range_step i (length xs) n)) = drop i xs"
proof (induction i "length xs" n rule: range_step.induct)
  case (1 i step)
  show ?case
  proof (cases "i < length xs")
    case True
    have "take step (drop i xs) @ drop (i + step) xs = drop i xs"
      by (metis add.commute append_take_drop_id drop_drop)
    then show ?thesis
      using True "1.prems" "1.hyps" by (subst range_step.simps) (simp add: slice_def)
  next
    case False
    then show ?thesis by (subst range_step.simps) simp
  qed
qed

lemma range_step_nth:
  "k < length (range_step i stop step) \<Longrightarrow> range_step i stop step ! k = i + k * step"
proof (induction i stop step arbitrary: k rule: range_step.induct)
  case (1 i stop step)
  show ?case
  proof (cases "i < stop \<and> 0 < step")
    case True
    then have eq: "range_step i stop step = i # range_step (i + step) stop step"
      by (subst range_step.simps) simp
    show ?thesis
    proof (cases k)
      case 0
      then show ?thesis by (simp add: eq)
    next
      case (Suc k')
      then have "k' < length (range_step (i + step) stop step)"
        using "1.prems" eq by simp
      then have "range_step (i + step) stop step ! k' = i + step + k' * step"
        using "1.IH" True by simp
      then show ?thesis by (simp add: eq Suc)
    qed
  next
    case False
    then have "range_step i stop step = []"
      by (subst range_step.simps) simp
    then show ?thesis using "1.prems" by simp
  qed
qed

lemma length_chunks: "length (chunks xs n) = (length xs + nat (max 1 n) - 1) div nat (max 1 n)"
  by (simp add: chunks_def Let_def range_step_length)

lemma concat_chunks: "concat (chunks xs n) = xs"
  using concat_slices [of "nat (max 1 n)" xs 0] by (simp add: chunks_def Let_def)

lemma chunks_nth:
  assumes "j < length (chunks xs n)"
  shows "chunks xs n ! j = take (nat (max 1 n)) (drop (j * nat (max 1 n)) xs)"
    and "j * nat (max 1 n) < length xs"
proof -
  let ?b = "nat (max 1 n)"
  have j: "j < length (range_step 0 (length xs) ?b)"
    using assms by (simp add: chunks_def Let_def)
  then have nth: "range_step 0 (length xs) ?b ! j = j * ?b"
    using range_step_nth [of j 0 "length xs" ?b] by simp
  show "chunks xs n ! j = take ?b (drop (j * ?b) xs)"
    using j nth by (simp add: chunks_def Let_def slice_def)
  have "range_step 0 (length xs) ?b ! j \<in> set (range_step 0 (length xs) ?b)"
    using j by simp
  then show "j * ?b < length xs"
    using nth range_step_bound by metis
qed

lemma chunks_sizes:
  assumes "d \<in> set (chunks xs n)"
  shows "d \<noteq> []" and "length d \<le> nat (max 1 n)"
proof -
  obtain j where j: "j < length (chunks xs n)" and d: "d = chunks xs n ! j"
    using assms by (auto simp: in_set_conv_nth)
  have eq: "d = take (nat (max 1 n)) (drop (j * nat (max 1 n)) xs)"
    and lt: "j * nat (max 1 n) < length xs"
    using chunks_nth [OF j] d by simp_all
  show "length d \<le> nat (max 1 n)" by (simp add: eq)
  show "d \<noteq> []" using lt by (simp add: eq)
qed

lemma chunks_full:
  assumes "Suc j < length (chunks xs n)"
  shows "length (chunks xs n ! j) = nat (max 1 n)"
proof -
  let ?b = "nat (max 1 n)"
  have "Suc j * ?b < length xs"
    using chunks_nth(2) [OF assms] .
  then have "?b \<le> length xs - j * ?b" by simp
  moreover have "chunks xs n ! j = take ?b (drop (j * ?b) xs)"
    using chunks_nth(1) [of j xs n] assms by simp
  ultimately show ?thesis by simp
qed

lemma load_batches_completes:
  "fst (load_batches (\<lambda>s d. (None, run s d)) t ds s c printed) = None"
  by (induction ds arbitrary: s c printed) simp_all

lemma load_batches_state:
  "fst (snd (load_batches (\<lambda>s d. (None, run s d)) t ds s c printed)) = foldl run s ds"
  by (induction ds arbitrary: s c printed) simp_all

lemma load_batches_printed:
  "length (snd (snd (load_batches (\<lambda>s d. (None, run s d)) t ds s c printed))) =
     length printed + length ds"
  by (induction ds arbitrary: s c printed) simp_all

lemma load_batches_raise:
  "run_cypher s d = (Some x, s') \<Longrightarrow>
     load_batches run_cypher t (d # ds) s c printed = (Some x, s', printed)"
  by simp

lemma ceil100: "int ((n + 99) div 100) = \<lceil>real n / 100\<rceil>"
proof -
  have "\<lceil>real n / 100\<rceil> = \<lceil>of_int (int n) / (of_int 100 :: real)\<rceil>" by simp
  also have "\<dots> = - (- int n div 100)" by (rule ceiling_divide_eq_div)
  also have "\<dots> = int ((n + 99) div 100)" by linarith
  finally show ?thesis by simp
qed

section \<open>Properties of the embedding entries\<close>

lemma append_entries_Inr:
  "append_entries cn cu d emb i s res = (Inr (s', res') :: 'e error + int \<times> 'v entry list) \<Longrightarrow>
     s' = s + int (length d - i) \<and> (i < length d \<longrightarrow> length d \<le> length emb) \<and>
     res' = res @ map (\<lambda>j. \<lparr>companyName = cn, cusip = cu, seqId = s + 1 + int (j - i),
                                contextId = cn @ str (s + 1 + int (j - i)),
                                textEmbedding = emb ! j, text' = d ! j\<rparr>) [i..<length d]"
proof (induction cn cu d emb i s res rule: append_entries.induct)
  case (1 cn cu d emb i s res)
  show ?case
  proof (cases "i < length d")
    case True
    then have emb: "i < length emb"
      using "1.prems" by (subst (asm) append_entries.simps) (simp split: if_splits)
    let ?e = "\<lparr>companyName = cn, cusip = cu, seqId = s + 1, contextId = cn @ str (s + 1),
               textEmbedding = emb ! i, text' = d ! i\<rparr>"
    have rec: "append_entries cn cu d emb (i + 1) (s + 1) (res @ [?e])
                 = (Inr (s', res') :: 'e error + int \<times> 'v entry list)"
      using "1.prems" True emb by (subst (asm) append_entries.simps) simp
    note ih = "1.IH" [OF True emb rec]
    have upt: "[i..<length d] = i # [Suc i..<length d]"
      using True by (simp add: upt_conv_Cons)
    have shift: "map (\<lambda>j. \<lparr>companyName = cn, cusip = cu, seqId = s + 1 + 1 + int (j - (i + 1)),
                                contextId = cn @ str (s + 1 + 1 + int (j - (i + 1))),
                                textEmbedding = emb ! j, text' = d ! j\<rparr>) [Suc i..<length d]
               = map (\<lambda>j. \<lparr>companyName = cn, cusip = cu, seqId = s + 1 + int (j - i),
                                contextId = cn @ str (s + 1 + int (j - i)),
                                textEmbedding = emb ! j, text' = d ! j\<rparr>) [Suc i..<length d]"
    proof (rule map_cong)
      fix j assume "j \<in> set [Suc i..<length d]"
      then have "s + 1 + 1 + int (j - (i + 1)) = s + 1 + int (j - i)"
        by auto
      then show "\<lparr>companyName = cn, cusip = cu, seqId = s + 1 + 1 + int (j - (i + 1)),
                  contextId = cn @ str (s + 1 + 1 + int (j - (i + 1))),
                  textEmbedding = emb ! j, text' = d ! j\<rparr>
               = \<lparr>companyName = cn, cusip = cu, seqId = s + 1 + int (j - i),
                  contextId = cn @ str (s + 1 + int (j - i)),
                  textEmbedding = emb ! j, text' = d ! j\<rparr>"
        by (simp only:)
    qed simp
    have s': "s' = s + int (length d - i)"
      using ih True by simp
    have len: "length d \<le> length emb"
      using ih emb by (cases "Suc i < length d") auto
    have "res' = res @ ?e # map (\<lambda>j. \<lparr>companyName = cn, cusip = cu, seqId = s + 1 + int (j - i),
                                contextId = cn @ str (s + 1 + int (j - i)),
                                textEmbedding = emb ! j, text' = d ! j\<rparr>) [Suc i..<length d]"
      using ih shift by simp
    then show ?thesis
      using s' len by (simp add: upt)
  next
    case False
    then show ?thesis
      using "1.prems" by (subst (asm) append_entries.simps) simp
  qed
qed

lemma append_entries_total:
  "length d \<le> length emb \<Longrightarrow>
     \<exists>s' res'. append_entries cn cu d emb i s res = (Inr (s', res') :: 'e error + int \<times> 'v entry list)"
proof (induction cn cu d emb i s res rule: append_entries.induct)
  case (1 cn cu d emb i s res)
  show ?case
  proof (cases "i < length d")
    case True
    then have emb: "i < length emb" using "1.prems" by simp
    show ?thesis
      using "1.IH" [OF True emb "1.prems"] True emb
      by (subst append_entries.simps) simp
  next
    case False
    then show ?thesis by (subst append_entries.simps) simp
  qed
qed

lemma append_entries_short:
  "i \<le> length emb \<Longrightarrow> length emb < length d \<Longrightarrow> append_entries cn cu d emb i s res = (Inl IndexError :: 'e error + int \<times> 'v entry list)"
proof (induction cn cu d emb i s res rule: append_entries.induct)
  case (1 cn cu d emb i s res)
  show ?case
  proof (cases "i < length emb")
    case True
    then have "i < length d" using "1.prems" by simp
    then show ?thesis
      using "1.IH" True "1.prems" by (subst append_entries.simps) simp
  next
    case False
    then show ?thesis using "1.prems" by (subst append_entries.simps) simp
  qed
qed

lemma map_nth_take: "n \<le> length xs \<Longrightarrow> map (\<lambda>j. xs ! j) [0..<n] = take n xs"
  by (auto intro!: nth_equalityI)

lemma map_upt_split:
  "map f [0..<a + b] = map f [0..<a] @ map (\<lambda>j. f (a + j)) [0..<b]"
proof -
  have "[0..<a + b] = [0..<a] @ map (\<lambda>j. a + j) [0..<b]"
    by (auto intro!: nth_equalityI simp: nth_append)
  then show ?thesis by (simp add: comp_def)
qed

lemma append_entries_fields:
  assumes "append_entries cn cu d emb 0 s res = (Inr (s', res') :: 'e error + int \<times> 'v entry list)"
  shows "s' = s + int (length d)"
    and "map seqId res' = map seqId res @ map (\<lambda>j. s + 1 + int j) [0..<length d]"
    and "map contextId res' = map contextId res @ map (\<lambda>j. cn @ str (s + 1 + int j)) [0..<length d]"
    and "map text' res' = map text' res @ d"
    and "map textEmbedding res' = map textEmbedding res @ take (length d) emb"
    and "map companyName res' = map companyName res @ replicate (length d) cn"
    and "map cusip res' = map cusip res @ replicate (length d) cu"
proof -
  note r = append_entries_Inr [OF assms]
  have le: "length d \<le> length emb"
    using r by (cases d) auto
  show "s' = s + int (length d)" using r by simp
  show "map seqId res' = map seqId res @ map (\<lambda>j. s + 1 + int j) [0..<length d]"
    using r by (simp add: comp_def)
  show "map contextId res' = map contextId res @ map (\<lambda>j. cn @ str (s + 1 + int j)) [0..<length d]"
    using r by (simp add: comp_def)
  show "map text' res' = map text' res @ d"
    using r by (simp add: comp_def map_nth)
  show "map textEmbedding res' = map textEmbedding res @ take (length d) emb"
    using r le by (simp add: comp_def map_nth_take)
  show "map companyName res' = map companyName res @ replicate (length d) cn"
    using r by (simp add: comp_def map_replicate_const)
  show "map cusip res' = map cusip res @ replicate (length d) cu"
    using r by (simp add: comp_def map_replicate_const)
qed

lemma embed_batches_fields:
  fixes ge :: "'m \<Rightarrow> string list \<Rightarrow> ('e + 'v list) \<times> 'm"
  shows "embed_batches ge cn cu ds m s res = (Inr res', m') \<Longrightarrow>
     map seqId res' = map seqId res @ map (\<lambda>j. s + 1 + int j) [0..<length (concat ds)]
   \<and> map contextId res' = map contextId res @ map (\<lambda>j. cn @ str (s + 1 + int j)) [0..<length (concat ds)]
   \<and> map text' res' = map text' res @ concat ds
   \<and> map textEmbedding res' = map textEmbedding res @ returned_vectors ge m ds
   \<and> map companyName res' = map companyName res @ replicate (length (concat ds)) cn
   \<and> map cusip res' = map cusip res @ replicate (length (concat ds)) cu
   \<and> model_after ge m ds = Some m'"
proof (induction ds arbitrary: m s res)
  case Nil
  then show ?case by simp
next
  case (Cons d ds)
  obtain emb m1 where ge: "ge m d = (Inr emb, m1)"
    using Cons.prems by (cases "ge m d") (auto split: sum.splits)
  obtain s1 res1 where ap: "append_entries cn cu d emb 0 s res = (Inr (s1, res1) :: 'e error + int \<times> 'v entry list)"
    using Cons.prems ge by (auto split: sum.splits)
  have rest: "embed_batches ge cn cu ds m1 s1 res1 = (Inr res', m')"
    using Cons.prems ge ap by simp
  note ih = Cons.IH [OF rest]
  note f = append_entries_fields [OF ap]
  have le: "length d \<le> length emb"
    using append_entries_Inr [OF ap] by (cases d) auto
  have shift: "s1 + 1 + int j = s + 1 + int (length d + j)" for j
    using f(1) by simp
  have "map seqId res' = map seqId res @ map (\<lambda>j. s + 1 + int j) [0..<length (concat (d # ds))]"
    using ih f(2) by (simp add: map_upt_split [of _ "length d"] shift)
  moreover have "map contextId res' =
      map contextId res @ map (\<lambda>j. cn @ str (s + 1 + int j)) [0..<length (concat (d # ds))]"
    using ih f(3) by (simp add: map_upt_split [of _ "length d"] shift)
  moreover have "map text' res' = map text' res @ concat (d # ds)"
    using ih f(4) by simp
  moreover have "map textEmbedding res' = map textEmbedding res @ returned_vectors ge m (d # ds)"
    using ih f(5) ge by simp
  moreover have "map companyName res' = map companyName res @ replicate (length (concat (d # ds))) cn"
    using ih f(6) by (simp add: replicate_add)
  moreover have "map cusip res' = map cusip res @ replicate (length (concat (d # ds))) cu"
    using ih f(7) by (simp add: replicate_add)
  moreover have "model_after ge m (d # ds) = Some m'"
    using ih ge le by simp
  ultimately show ?case by blast
qed

lemma embed_batches_total:
  fixes ge :: "'m \<Rightarrow> string list \<Rightarrow> ('e + 'v list) \<times> 'm"
  shows "model_after ge m ds = Some m' \<Longrightarrow> \<exists>res'. embed_batches ge cn cu ds m s res = (Inr res', m')"
proof (induction ds arbitrary: m s res)
  case Nil
  then show ?case by simp
next
  case (Cons d ds)
  obtain emb m1 where ge: "ge m d = (Inr emb, m1)" and le: "length d \<le> length emb"
    and rest: "model_after ge m1 ds = Some m'"
    using Cons.prems by (cases "ge m d") (auto split: sum.splits if_splits)
  obtain s1 res1 where ap: "append_entries cn cu d emb 0 s res = (Inr (s1, res1) :: 'e error + int \<times> 'v entry list)"
    using append_entries_total [OF le] by blast
  show ?case
    using Cons.IH [OF rest, of s1 res1] ge ap by simp
qed

lemma embed_batches_raise:
  fixes ge :: "'m \<Rightarrow> string list \<Rightarrow> ('e + 'v list) \<times> 'm"
  assumes "model_after ge m ds1 = Some m1" and "ge m1 d = (Inl e, m2)"
  shows "embed_batches ge cn cu (ds1 @ d # ds2) m s res = (Inl (Raised e), m2)"
  using assms
proof (induction ds1 arbitrary: m s res)
  case Nil
  then show ?case by simp
next
  case (Cons d1 ds1)
  obtain emb m' where ge: "ge m d1 = (Inr emb, m')" and le: "length d1 \<le> length emb"
    and rest: "model_after ge m' ds1 = Some m1"
    using Cons.prems(1) by (cases "ge m d1") (auto split: sum.splits if_splits)
  obtain s1 res1 where ap: "append_entries cn cu d1 emb 0 s res = (Inr (s1, res1) :: 'e error + int \<times> 'v entry list)"
    using append_entries_total [OF le] by blast
  show ?case
    using Cons.IH [OF rest Cons.prems(2), of s1 res1] ge ap by simp
qed

lemma embed_filings_append:
  fixes ge :: "'m \<Rightarrow> string list \<Rightarrow> ('e + 'v list) \<times> 'm"
  shows "embed_filings sp ge m0 acc0 (fs1 @ fs) =
     (case embed_filings sp ge m0 acc0 fs1 of
        (Inl err, m) \<Rightarrow> (Inl err, m)
      | (Inr acc, m) \<Rightarrow> embed_filings sp ge m acc fs)"
  by (induction fs1 arbitrary: m0 acc0) (auto split: prod.splits sum.splits)

lemma create_text_embedding_entries_fields:
  fixes ge :: "'m \<Rightarrow> string list \<Rightarrow> ('e + 'v list) \<times> 'm"
  assumes "create_text_embedding_entries sp ge m t cn cu = (Inr res, m')"
  shows "map seqId res = map int [0..<length (sp 2000 15 t)]"
    and "map contextId res = map (\<lambda>j. cn @ str (int j)) [0..<length (sp 2000 15 t)]"
    and "map text' res = sp 2000 15 t"
    and "map textEmbedding res = returned_vectors ge m (chunks (sp 2000 15 t) 3)"
    and "map companyName res = replicate (length (sp 2000 15 t)) cn"
    and "map cusip res = replicate (length (sp 2000 15 t)) cu"
    and "model_after ge m (chunks (sp 2000 15 t) 3) = Some m'"
proof -
  have run: "embed_batches ge cn cu (chunks (sp 2000 15 t) 3) m (- 1) [] = (Inr res, m')"
    using assms by (simp add: create_text_embedding_entries_def Let_def)
  note f = embed_batches_fields [OF run, unfolded concat_chunks]
  show "map seqId res = map int [0..<length (sp 2000 15 t)]" using f by simp
  show "map contextId res = map (\<lambda>j. cn @ str (int j)) [0..<length (sp 2000 15 t)]" using f by simp
  show "map text' res = sp 2000 15 t" using f by simp
  show "map textEmbedding res = returned_vectors ge m (chunks (sp 2000 15 t) 3)" using f by simp
  show "map companyName res = replicate (length (sp 2000 15 t)) cn" using f by simp
  show "map cusip res = replicate (length (sp 2000 15 t)) cu" using f by simp
  show "model_after ge m (chunks (sp 2000 15 t) 3) = Some m'" using f by simp
qed

lemma create_text_embedding_entries_total:
  fixes ge :: "'m \<Rightarrow> string list \<Rightarrow> ('e + 'v list) \<times> 'm"
  assumes "model_after ge m (chunks (sp 2000 15 t) 3) = Some m'"
  shows "\<exists>res. create_text_embedding_entries sp ge m t cn cu = (Inr res, m')"
  using embed_batches_total [OF assms]
  by (simp add: create_text_embedding_entries_def Let_def)


text \<open>
  Claim C1. Let the splitter give \<open>k\<close> chunks for the filing text, and let the embedding
  model answer every batch with at least as many vectors as the batch has texts. Then
  \<open>create_text_embedding_entries\<close> returns a list of exactly \<open>k\<close> records whose \<open>seqId\<close>s
  are \<open>0, 1, \<dots>, k - 1\<close> in this order (so they form the set \<open>{0, \<dots>, k - 1}\<close> and increase
  strictly), and record \<open>i\<close> holds chunk \<open>i\<close> and the vector the model returned for it.
\<close>

theorem create_text_embedding_entries_records:
  fixes get_embeddings :: "'m \<Rightarrow> string list \<Rightarrow> ('e + 'v list) \<times> 'm"
  assumes "splitter 2000 15 input_text = docs"
    and "length docs = k"
    and "model_after get_embeddings m (chunks docs 3) = Some m'"
  shows "\<exists>res. create_text_embedding_entries splitter get_embeddings m input_text company_name cusip'
                 = (Inr res, m')
           \<and> length res = k
           \<and> map seqId res = map int [0..<k]
           \<and> seqId ` set res = {0..<int k}
           \<and> sorted_wrt (<) (map seqId res)
           \<and> map text' res = docs
           \<and> map textEmbedding res = returned_vectors get_embeddings m (chunks docs 3)
           \<and> (\<forall>i<k. seqId (res ! i) = int i \<and> text' (res ! i) = docs ! i
                  \<and> textEmbedding (res ! i) = returned_vectors get_embeddings m (chunks docs 3) ! i)"
proof -
  obtain res where run:
    "create_text_embedding_entries splitter get_embeddings m input_text company_name cusip' = (Inr res, m')"
    using create_text_embedding_entries_total [of get_embeddings m splitter input_text m'] assms by blast
  note f = create_text_embedding_entries_fields [OF run, unfolded assms(1) assms(2)]
  have len: "length res = k"
    using f(1) by (metis length_map length_upt minus_nat.diff_0)
  have ids: "map seqId res = map int [0..<k]" by (rule f(1))
  have "seqId ` set res = set (map seqId res)" by simp
  also have "\<dots> = int ` {0..<k}" by (simp add: ids)
  also have "\<dots> = {0..<int k}" by (simp add: image_int_atLeastLessThan)
  finally have set: "seqId ` set res = {0..<int k}" .
  have sorted: "sorted_wrt (<) (map seqId res)"
    by (simp add: ids sorted_wrt_map sorted_wrt_upt)
  have nth: "seqId (res ! i) = int i \<and> text' (res ! i) = docs ! i
        \<and> textEmbedding (res ! i) = returned_vectors get_embeddings m (chunks docs 3) ! i" if "i < k" for i
  proof -
    have "seqId (res ! i) = map seqId res ! i" "text' (res ! i) = map text' res ! i"
      "textEmbedding (res ! i) = map textEmbedding res ! i"
      using that len by simp_all
    then show ?thesis using that f(1,3,4) by simp
  qed
  show ?thesis
    using run len ids set sorted f(3) f(4) nth by blast
qed

theorem create_text_embedding_entries_records_witness:
  "model_after (\<lambda>m d. (Inr (map rev d) :: string + string list, Suc m)) (0::nat)
      (chunks [''ab'', ''cd'', ''ef'', ''gh''] 3) = Some 2
   \<and> (\<exists>res. create_text_embedding_entries (\<lambda>chunk_size chunk_overlap t. [''ab'', ''cd'', ''ef'', ''gh''])
                (\<lambda>m d. (Inr (map rev d) :: string + string list, Suc m)) (0::nat)
                ''abcdefgh'' ''Acme'' ''C1'' = (Inr res, 2)
            \<and> length res = 4
            \<and> map seqId res = [0, 1, 2, 3]
            \<and> map text' res = [''ab'', ''cd'', ''ef'', ''gh'']
            \<and> map textEmbedding res = [''ba'', ''dc'', ''fe'', ''hg''])"
proof -
  have ch: "chunks [''ab'', ''cd'', ''ef'', ''gh''] 3 = [[''ab'', ''cd'', ''ef''], [''gh'']]"
    by (simp add: chunks_def slice_def range_step.simps)
  have h: "model_after (\<lambda>m d. (Inr (map rev d) :: string + string list, Suc m)) (0::nat)
      (chunks [''ab'', ''cd'', ''ef'', ''gh''] 3) = Some 2"
    by (simp add: ch)
  have up: "[0..<4] = [0, 1, 2, 3]"
    by (simp add: upt_rec)
  have p2: "length [''ab'', ''cd'', ''ef'', ''gh''] = 4" by simp
  from create_text_embedding_entries_records
      [of "\<lambda>chunk_size chunk_overlap t. [''ab'', ''cd'', ''ef'', ''gh'']" "''abcdefgh''"
          "[''ab'', ''cd'', ''ef'', ''gh'']" 4
          "\<lambda>m d. (Inr (map rev d) :: string + string list, Suc m)" 0 2 "''Acme''" "''C1''",
       OF refl p2 h]
  obtain res where res:
    "create_text_embedding_entries (\<lambda>chunk_size chunk_overlap t. [''ab'', ''cd'', ''ef'', ''gh''])
       (\<lambda>m d. (Inr (map rev d) :: string + string list, Suc m)) (0::nat)
       ''abcdefgh'' ''Acme'' ''C1'' = (Inr res, 2)"
    "length res = 4" "map seqId res = map int [0..<4]"
    "map text' res = [''ab'', ''cd'', ''ef'', ''gh'']"
    "map textEmbedding res = returned_vectors (\<lambda>m d. (Inr (map rev d) :: string + string list, Suc m))
       (0::nat) (chunks [''ab'', ''cd'', ''ef'', ''gh''] 3)"
    by (elim exE conjE)
  have ids: "map seqId res = [0, 1, 2, 3]"
    using res(3) by (simp add: up)
  have vecs: "map textEmbedding res = [''ba'', ''dc'', ''fe'', ''hg'']"
    using res(5) by (simp add: ch)
  show ?thesis
    by (rule conjI [OF h], rule exI [of _ res]) (simp add: res(1,2,4) ids vecs)
qed

text \<open>\<open>str\<close> gives the decimal digits.\<close>

lemma str_decimal_examples: "str 0 = ''0''" "str 7 = ''7''" "str 10 = ''10''" "str 123 = ''123''"
  by (simp_all add: str_def str_nat.simps)

lemma embed_filings_contextIds:
  fixes ge :: "'m \<Rightarrow> string list \<Rightarrow> ('e + 'v list) \<times> 'm"
  shows "embed_filings sp ge m acc fs = (Inr entries, m') \<Longrightarrow>
     map contextId entries = map contextId acc @
       concat (map (\<lambda>f. map (\<lambda>j. f_companyName f @ str (int j))
                            [0..<length (sp 2000 15 (item1 f))]) fs)"
proof (induction fs arbitrary: m acc)
  case Nil
  then show ?case by simp
next
  case (Cons f fs)
  obtain res m1 where run: "create_text_embedding_entries sp ge m (item1 f) (f_companyName f) (f_cusip f) = (Inr res, m1)"
    and rest: "embed_filings sp ge m1 (acc @ res) fs = (Inr entries, m')"
    using Cons.prems by (auto split: prod.splits sum.splits)
  show ?case
    using Cons.IH [OF rest] create_text_embedding_entries_fields(2) [OF run] by simp
qed

lemma embed_filings_entries:
  fixes ge :: "'m \<Rightarrow> string list \<Rightarrow> ('e + 'v list) \<times> 'm"
  shows "embed_filings sp ge m acc fs = (Inr entries, m') \<Longrightarrow>
     \<forall>r \<in> set acc. contextId r = companyName r @ str (seqId r) \<Longrightarrow>
     \<forall>r \<in> set entries. contextId r = companyName r @ str (seqId r)"
proof (induction fs arbitrary: m acc)
  case Nil
  then show ?case by simp
next
  case (Cons f fs)
  obtain res m1 where run: "create_text_embedding_entries sp ge m (item1 f) (f_companyName f) (f_cusip f) = (Inr res, m1)"
    and rest: "embed_filings sp ge m1 (acc @ res) fs = (Inr entries, m')"
    using Cons.prems(1) by (auto split: prod.splits sum.splits)
  note f = create_text_embedding_entries_fields [OF run]
  let ?k = "length (sp 2000 15 (item1 f))"
  have len: "length res = ?k"
    using f(1) by (metis length_map length_upt minus_nat.diff_0)
  have "contextId r = companyName r @ str (seqId r)" if mem: "r \<in> set res" for r
  proof -
    obtain i where i: "i < length res" and r: "res ! i = r"
      using mem by (auto simp: in_set_conv_nth)
    have "contextId r = map contextId res ! i" "seqId r = map seqId res ! i"
      "companyName r = map companyName res ! i"
      using i r by auto
    then show ?thesis
      using i len by (simp add: f(1,2,5))
  qed
  then have "\<forall>r \<in> set (acc @ res). contextId r = companyName r @ str (seqId r)"
    using Cons.prems(2) by auto
  then show ?case
    using Cons.IH [OF rest] by blast
qed

lemma concat_not_distinct:
  assumes "i < j" and "j < length xss" and "x \<in> set (xss ! i)" and "x \<in> set (xss ! j)"
  shows "\<not> distinct (concat xss)"
proof -
  have i: "i < length xss" using assms by simp
  have split: "xss = take i xss @ xss ! i # drop (Suc i) xss"
    using i by (rule id_take_nth_drop)
  have "xss ! j \<in> set (drop (Suc i) xss)"
    using assms(1,2) by (auto simp: in_set_conv_nth intro!: exI [of _ "j - Suc i"])
  then have "x \<in> set (concat (drop (Suc i) xss))"
    using assms(4) by auto
  moreover have "concat xss = concat (take i xss) @ xss ! i @ concat (drop (Suc i) xss)"
    by (subst split) simp
  ultimately show ?thesis
    using assms(3) by auto
qed


text \<open>
  Claim C7, amended. Every record the embedding cell produces has as \<open>contextId\<close> its
  company name followed by the decimal digits of its \<open>seqId\<close>. These ids are distinct
  across all records only if the company names are distinct among the filings that
  contribute a record: whenever the ids are distinct, any two filings for which the
  splitter gives at least one chunk have different company names (two such filings of
  one name would both contribute the id of that name with \<open>0\<close>). A filing without a chunk
  contributes no record, so its name is not constrained; see the counterexample below.
\<close>

theorem contextId_company_name_seqId:
  fixes get_embeddings :: "'m \<Rightarrow> string list \<Rightarrow> ('e + 'v list) \<times> 'm"
  assumes "embed_filings splitter get_embeddings m [] fs = (Inr embedding_entries, m')"
  shows "(\<forall>r \<in> set embedding_entries. contextId r = companyName r @ str (seqId r))
       \<and> (distinct (map contextId embedding_entries) \<longrightarrow>
            (\<forall>i j. i < j \<and> j < length fs
                \<and> splitter 2000 15 (item1 (fs ! i)) \<noteq> []
                \<and> splitter 2000 15 (item1 (fs ! j)) \<noteq> []
              \<longrightarrow> f_companyName (fs ! i) \<noteq> f_companyName (fs ! j)))"
proof (intro conjI impI allI)
  show "\<forall>r \<in> set embedding_entries. contextId r = companyName r @ str (seqId r)"
    using embed_filings_entries [OF assms] by simp
next
  fix i j
  assume d: "distinct (map contextId embedding_entries)"
    and ij: "i < j \<and> j < length fs
                \<and> splitter 2000 15 (item1 (fs ! i)) \<noteq> []
                \<and> splitter 2000 15 (item1 (fs ! j)) \<noteq> []"
  let ?ids = "\<lambda>f. map (\<lambda>j. f_companyName f @ str (int j)) [0..<length (splitter 2000 15 (item1 f))]"
  have ids: "map contextId embedding_entries = concat (map ?ids fs)"
    using embed_filings_contextIds [OF assms] by simp
  show "f_companyName (fs ! i) \<noteq> f_companyName (fs ! j)"
  proof
    assume same: "f_companyName (fs ! i) = f_companyName (fs ! j)"
    have "f_companyName (fs ! i) @ str (int 0) \<in> set (map ?ids fs ! i)"
      using ij by (auto intro!: image_eqI [of _ _ 0])
    moreover have "f_companyName (fs ! i) @ str (int 0) \<in> set (map ?ids fs ! j)"
      using ij same by (auto intro!: image_eqI [of _ _ 0])
    ultimately have "\<not> distinct (concat (map ?ids fs))"
      using concat_not_distinct [of i j "map ?ids fs"] ij by simp
    then show False using d ids by simp
  qed
qed

theorem contextId_company_name_seqId_witness:
  "embed_filings (\<lambda>chunk_size chunk_overlap t. [t])
      (\<lambda>m d. (Inr (map rev d) :: string + string list, m)) () []
      [\<lparr>item1 = ''ab'', f_companyName = ''Acme'', f_cusip = ''C1''\<rparr>,
       \<lparr>item1 = ''cd'', f_companyName = ''Beta'', f_cusip = ''C2''\<rparr>]
     = (Inr [\<lparr>companyName = ''Acme'', cusip = ''C1'', seqId = 0, contextId = ''Acme0'',
               textEmbedding = ''ba'', text' = ''ab''\<rparr>,
             \<lparr>companyName = ''Beta'', cusip = ''C2'', seqId = 0, contextId = ''Beta0'',
               textEmbedding = ''dc'', text' = ''cd''\<rparr>], ())
   \<and> ''Acme0'' = ''Acme'' @ str 0
   \<and> distinct [''Acme0'', ''Beta0'']
   \<and> ''Acme'' \<noteq> ''Beta''"
proof -
  have run: "embed_filings (\<lambda>chunk_size chunk_overlap t. [t])
      (\<lambda>m d. (Inr (map rev d) :: string + string list, m)) () []
      [\<lparr>item1 = ''ab'', f_companyName = ''Acme'', f_cusip = ''C1''\<rparr>,
       \<lparr>item1 = ''cd'', f_companyName = ''Beta'', f_cusip = ''C2''\<rparr>]
     = (Inr [\<lparr>companyName = ''Acme'', cusip = ''C1'', seqId = 0, contextId = ''Acme0'',
               textEmbedding = ''ba'', text' = ''ab''\<rparr>,
             \<lparr>companyName = ''Beta'', cusip = ''C2'', seqId = 0, contextId = ''Beta0'',
               textEmbedding = ''dc'', text' = ''cd''\<rparr>], ())"
    by (simp add: create_text_embedding_entries_def chunks_def slice_def range_step.simps
        append_entries.simps str_def str_nat.simps)
  show ?thesis
    using contextId_company_name_seqId [OF run] run
    by (simp add: str_def str_nat.simps)
qed


text \<open>
  Without the restriction to filings that contribute a record, the second half of the
  claim fails. Two filings are named \<open>Acme\<close>; the text of the second is empty, for which
  the splitter gives no chunk. The cell returns the single record \<open>Acme0\<close>: the ids are
  distinct although the company names of the filings are not.
\<close>

theorem contextId_company_name_seqId_counterexample:
  "embed_filings (\<lambda>chunk_size chunk_overlap t. if t = [] then [] else [t])
      (\<lambda>m d. (Inr (map rev d) :: string + string list, m)) () []
      [\<lparr>item1 = ''ab'', f_companyName = ''Acme'', f_cusip = ''C1''\<rparr>,
       \<lparr>item1 = [], f_companyName = ''Acme'', f_cusip = ''C2''\<rparr>]
     = (Inr [\<lparr>companyName = ''Acme'', cusip = ''C1'', seqId = 0, contextId = ''Acme0'',
               textEmbedding = ''ba'', text' = ''ab''\<rparr>], ())
   \<and> distinct (map contextId
        [\<lparr>companyName = ''Acme'', cusip = ''C1'', seqId = 0, contextId = ''Acme0'',
           textEmbedding = ''ba'', text' = ''ab''\<rparr>])
   \<and> \<not> distinct (map f_companyName
        [\<lparr>item1 = ''ab'', f_companyName = ''Acme'', f_cusip = ''C1''\<rparr>,
         \<lparr>item1 = [], f_companyName = ''Acme'', f_cusip = ''C2''\<rparr>])"
  by (simp add: create_text_embedding_entries_def chunks_def slice_def range_step.simps
      append_entries.simps str_def str_nat.simps)

text \<open>
  Claim C8. Nothing in the embedding code catches an exception. When the model answers
  the batches \<open>ds1\<close> of a filing and raises \<open>e\<close> on the next batch \<open>d\<close>,
  \<open>create_text_embedding_entries\<close> ends with \<open>e\<close>: it returns no record, and the model is
  left in the state of the failed call, so the call is not repeated and the batches
  after \<open>d\<close> are not sent. The cell that embeds the filings ends with \<open>e\<close> as well, after
  the filings \<open>fs1\<close> it had finished and without a call for the filings \<open>fs2\<close> behind.
\<close>

theorem embedding_exception_propagates:
  fixes get_embeddings :: "'m \<Rightarrow> string list \<Rightarrow> ('e + 'v list) \<times> 'm"
  assumes "chunks (splitter 2000 15 input_text) 3 = ds1 @ d # ds2"
    and "model_after get_embeddings m ds1 = Some m1"
    and "get_embeddings m1 d = (Inl e, m2)"
    and "embed_filings splitter get_embeddings m0 [] fs1 = (Inr embedding_entries, m)"
  shows "create_text_embedding_entries splitter get_embeddings m input_text company_name cusip'
           = (Inl (Raised e), m2)
       \<and> embed_filings splitter get_embeddings m0 []
           (fs1 @ \<lparr>item1 = input_text, f_companyName = company_name, f_cusip = cusip'\<rparr> # fs2)
           = (Inl (Raised e), m2)"
proof -
  have one: "create_text_embedding_entries splitter get_embeddings m input_text company_name cusip'
           = (Inl (Raised e), m2)"
    using embed_batches_raise [OF assms(2) assms(3)] assms(1)
    by (simp add: create_text_embedding_entries_def Let_def)
  then show ?thesis
    using assms(4) by (simp add: embed_filings_append)
qed


theorem embedding_exception_propagates_witness:
  "create_text_embedding_entries (\<lambda>chunk_size chunk_overlap t. [''ab'', ''cd'', ''ef'', ''gh''])
      (\<lambda>m d. (if m = Suc 0 then Inl ''quota'' else Inr (map rev d), Suc m)) (0::nat)
      ''abcdefgh'' ''Acme'' ''C1'' = (Inl (Raised ''quota''), 2)
   \<and> embed_filings (\<lambda>chunk_size chunk_overlap t. [''ab'', ''cd'', ''ef'', ''gh''])
      (\<lambda>m d. (if m = Suc 0 then Inl ''quota'' else Inr (map rev d), Suc m)) (0::nat) []
      [\<lparr>item1 = ''abcdefgh'', f_companyName = ''Acme'', f_cusip = ''C1''\<rparr>,
       \<lparr>item1 = ''abcdefgh'', f_companyName = ''Beta'', f_cusip = ''C2''\<rparr>]
      = (Inl (Raised ''quota'') :: string error + string entry list, 2)"
proof -
  have ch: "chunks [''ab'', ''cd'', ''ef'', ''gh''] 3 = [[''ab'', ''cd'', ''ef'']] @ [''gh''] # []"
    by (simp add: chunks_def slice_def range_step.simps)
  have h: "model_after (\<lambda>m d. (if m = Suc 0 then Inl ''quota'' else Inr (map rev d) :: string + string list, Suc m))
      (0::nat) [[''ab'', ''cd'', ''ef'']] = Some (Suc 0)"
    by simp
  have f: "(if Suc 0 = Suc 0 then Inl ''quota'' else Inr (map rev [''gh'']) :: string + string list, Suc (Suc 0))
      = (Inl ''quota'', 2)"
    by simp
  have e: "embed_filings (\<lambda>chunk_size chunk_overlap t. [''ab'', ''cd'', ''ef'', ''gh''])
      (\<lambda>m d. (if m = Suc 0 then Inl ''quota'' else Inr (map rev d) :: string + string list, Suc m)) (0::nat) [] []
      = (Inr [], 0)"
    by simp
  show ?thesis
    using embedding_exception_propagates
      [of "\<lambda>chunk_size chunk_overlap t. [''ab'', ''cd'', ''ef'', ''gh'']" "''abcdefgh''"
          "[[''ab'', ''cd'', ''ef'']]" "[''gh'']" "[]"
          "\<lambda>m d. (if m = Suc 0 then Inl ''quota'' else Inr (map rev d) :: string + string list, Suc m)"
          0 "Suc 0" "''quota''" 2 0 "[]" "[]" "''Acme''" "''C1''"
          "[\<lparr>item1 = ''abcdefgh'', f_companyName = ''Beta'', f_cusip = ''C2''\<rparr>]",
       OF ch h f e]
    by simp
qed

section \<open>Properties of the loading loop\<close>

text \<open>
  Claim C4. The loading loop makes one call of \<open>run_cypher\<close> for each batch of
  \<open>chunks emb_entries 100\<close>, in order. A server that only records what it receives
  therefore ends with the list \<open>sent\<close> of the batches sent: there are
  \<open>\<lceil>N / 100\<rceil>\<close> of them for \<open>N\<close> entries, none is empty or longer than 100, all but
  the last hold exactly 100 entries, and their concatenation is the input. Against any
  server whose calls raise nothing and which goes from state \<open>s\<close> to \<open>run s d\<close> on a batch
  \<open>d\<close>, as many progress lines are printed and the final state is the fold of \<open>run\<close> over
  these batches.
\<close>

theorem load_documents_round_trips:
  fixes emb_entries :: "'v entry list"
  defines "sent \<equiv> fst (snd (load_documents (\<lambda>received d. (None :: unit option, received @ [d]))
                       [] emb_entries))"
  shows "length sent = (length emb_entries + 99) div 100
       \<and> int (length sent) = \<lceil>real (length emb_entries) / 100\<rceil>
       \<and> (\<forall>d \<in> set sent. d \<noteq> [] \<and> length d \<le> 100)
       \<and> (\<forall>j. Suc j < length sent \<longrightarrow> length (sent ! j) = 100)
       \<and> concat sent = emb_entries
       \<and> length (snd (snd (load_documents (\<lambda>s d. (None :: unit option, run s d)) s emb_entries)))
           = (length emb_entries + 99) div 100
       \<and> fst (snd (load_documents (\<lambda>s d. (None :: unit option, run s d)) s emb_entries))
           = foldl run s sent"
proof -
  have fold: "foldl (\<lambda>received d. received @ [d]) acc ds = acc @ ds" for acc ds :: "'v entry list list"
    by (induction ds arbitrary: acc) simp_all
  have sent: "sent = chunks emb_entries 100"
    by (simp add: sent_def load_documents_def load_batches_state fold)
  have "length sent = (length emb_entries + 99) div 100"
    by (simp add: sent length_chunks)
  moreover have "int (length sent) = \<lceil>real (length emb_entries) / 100\<rceil>"
    using ceil100 [of "length emb_entries"] by (simp add: sent length_chunks)
  moreover have "\<forall>d \<in> set sent. d \<noteq> [] \<and> length d \<le> 100"
    using chunks_sizes [of _ emb_entries 100] by (simp add: sent)
  moreover have "\<forall>j. Suc j < length sent \<longrightarrow> length (sent ! j) = 100"
    using chunks_full [of _ emb_entries 100] by (simp add: sent)
  moreover have "concat sent = emb_entries"
    by (simp add: sent concat_chunks)
  moreover have "length (snd (snd (load_documents (\<lambda>s d. (None :: unit option, run s d)) s emb_entries)))
      = (length emb_entries + 99) div 100"
    by (simp add: load_documents_def load_batches_printed length_chunks)
  moreover have "fst (snd (load_documents (\<lambda>s d. (None :: unit option, run s d)) s emb_entries))
      = foldl run s sent"
    by (simp add: sent load_documents_def load_batches_state)
  ultimately show ?thesis by blast
qed

theorem load_documents_round_trips_witness:
  "fst (snd (load_documents (\<lambda>received d. (None :: unit option, received @ [d])) []
      (replicate 101 \<lparr>companyName = ''Acme'', cusip = ''C1'', seqId = 0, contextId = ''Acme0'',
         textEmbedding = [0::int], text' = ''t''\<rparr>))) =
     [replicate 100 \<lparr>companyName = ''Acme'', cusip = ''C1'', seqId = 0, contextId = ''Acme0'',
         textEmbedding = [0::int], text' = ''t''\<rparr>,
      [\<lparr>companyName = ''Acme'', cusip = ''C1'', seqId = 0, contextId = ''Acme0'',
         textEmbedding = [0::int], text' = ''t''\<rparr>]]
   \<and> (101 + 99) div 100 = (2::nat)"
  using load_documents_round_trips
    [of "replicate 101 \<lparr>companyName = ''Acme'', cusip = ''C1'', seqId = 0, contextId = ''Acme0'',
         textEmbedding = [0::int], text' = ''t''\<rparr>" "\<lambda>received d. received @ [d]" "[]"]
  by (simp add: load_documents_def chunks_def slice_def range_step.simps)


section \<open>Properties of the upsert query\<close>

lemma filter_indices_empty:
  "filter (\<lambda>i. f (xs ! i) = x) [0..<length xs] = [] \<longleftrightarrow> x \<notin> f ` set xs"
proof
  assume e: "filter (\<lambda>i. f (xs ! i) = x) [0..<length xs] = []"
  show "x \<notin> f ` set xs"
  proof
    assume "x \<in> f ` set xs"
    then obtain y where y: "y \<in> set xs" and fy: "f y = x" by auto
    from y obtain i where i: "i < length xs" and xi: "xs ! i = y"
      unfolding in_set_conv_nth by auto
    have "i \<in> set (filter (\<lambda>i. f (xs ! i) = x) [0..<length xs])"
      using i xi fy by simp
    then show False using e by simp
  qed
next
  assume n: "x \<notin> f ` set xs"
  have "f (xs ! i) \<noteq> x" if "i < length xs" for i
  proof -
    have "xs ! i \<in> set xs" using that by simp
    then show ?thesis using n by auto
  qed
  then show "filter (\<lambda>i. f (xs ! i) = x) [0..<length xs] = []"
    by (simp add: filter_empty_conv)
qed

lemma matching_documents_empty:
  "filter (\<lambda>b. documentId (docs ! b) = x) [0..<length docs] = [] \<longleftrightarrow> x \<notin> set (map documentId docs)"
  using filter_indices_empty [of documentId docs x] by simp

lemma matching_companies_empty:
  "filter (\<lambda>c. company_cusip (companies st ! c) = cusip r) [0..<length (companies st)] = []
     \<longleftrightarrow> \<not> has_company st r"
proof -
  have "has_company st r \<longleftrightarrow> cusip r \<in> company_cusip ` set (companies st)"
    unfolding has_company_def image_iff by (rule bex_cong [OF refl]) (rule eq_commute)
  then show ?thesis
    using filter_indices_empty [of company_cusip "companies st" "cusip r"] by simp
qed

lemma set_match_company:
  "set (match_company st rows) =
     {(r, c). r \<in> set rows \<and> c < length (companies st) \<and> company_cusip (companies st ! c) = cusip r}"
  by (auto simp: match_company_def)

lemma match_company_filter:
  "match_company st (filter (has_company st) rows) = match_company st rows"
proof (induction rows)
  case Nil
  then show ?case by (simp add: match_company_def)
next
  case (Cons r rows)
  then show ?case
    using matching_companies_empty [of st r]
    by (cases "has_company st r") (simp_all add: match_company_def)
qed

lemma merge_document_new:
  assumes "contextId r \<notin> set (map documentId (documents st))"
  shows "merge_document st ((r, c) # rows) =
     (case merge_document (st\<lparr>documents := documents st @
                     [\<lparr>documentId = contextId r, documentType = None,
                       document_seqId = None, document_textEmbedding = None,
                       document_text = None\<rparr>]\<rparr>) rows of
        (st2, out) \<Rightarrow> (st2, (r, c, length (documents st)) # out))"
proof -
  have "filter (\<lambda>b. documentId (documents st ! b) = contextId r) [0..<length (documents st)] = []"
    using assms matching_documents_empty [of "documents st" "contextId r"] by simp
  then show ?thesis
    by (simp add: merge_document.simps(2) Let_def split: prod.splits)
qed

lemma merge_document_old:
  assumes "contextId r \<in> set (map documentId (documents st))"
  shows "merge_document st ((r, c) # rows) =
     (case merge_document st rows of
        (st2, out) \<Rightarrow>
          (st2, map (\<lambda>b. (r, c, b))
             (filter (\<lambda>b. documentId (documents st ! b) = contextId r)
                [0..<length (documents st)]) @ out))"
proof -
  have "filter (\<lambda>b. documentId (documents st ! b) = contextId r) [0..<length (documents st)] \<noteq> []"
    using assms matching_documents_empty [of "documents st" "contextId r"] by simp
  then show ?thesis
    by (simp add: merge_document.simps(2) Let_def split: prod.splits)
qed

lemma merge_document_induct [consumes 1, case_names Nil New Old]:
  assumes "merge_document st rows = (st', out)"
    and "\<And>st. P st [] st []"
    and "\<And>st r c rows st' out.
           contextId r \<notin> set (map documentId (documents st)) \<Longrightarrow>
           merge_document (st\<lparr>documents := documents st @
                     [\<lparr>documentId = contextId r, documentType = None,
                       document_seqId = None, document_textEmbedding = None,
                       document_text = None\<rparr>]\<rparr>) rows = (st', out) \<Longrightarrow>
           P (st\<lparr>documents := documents st @
                     [\<lparr>documentId = contextId r, documentType = None,
                       document_seqId = None, document_textEmbedding = None,
                       document_text = None\<rparr>]\<rparr>) rows st' out \<Longrightarrow>
           P st ((r, c) # rows) st' ((r, c, length (documents st)) # out)"
    and "\<And>st r c rows st' out.
           contextId r \<in> set (map documentId (documents st)) \<Longrightarrow>
           merge_document st rows = (st', out) \<Longrightarrow>
           P st rows st' out \<Longrightarrow>
           P st ((r, c) # rows) st'
             (map (\<lambda>b. (r, c, b))
                (filter (\<lambda>b. documentId (documents st ! b) = contextId r)
                   [0..<length (documents st)]) @ out)"
  shows "P st rows st' out"
  using assms(1)
proof (induction rows arbitrary: st st' out)
  case Nil
  then show ?case using assms(2) by simp
next
  case (Cons row rows)
  obtain r c where row: "row = (r, c)" by (cases row)
  show ?case
  proof (cases "contextId r \<in> set (map documentId (documents st))")
    case True
    obtain out' where rec: "merge_document st rows = (st', out')"
      and out: "out = map (\<lambda>b. (r, c, b))
                (filter (\<lambda>b. documentId (documents st ! b) = contextId r)
                   [0..<length (documents st)]) @ out'"
      using Cons.prems unfolding row merge_document_old [OF True]
      by (cases "merge_document st rows") simp
    show ?thesis
      unfolding row out by (rule assms(4) [OF True rec Cons.IH [OF rec]])
  next
    case False
    let ?st1 = "st\<lparr>documents := documents st @
                     [\<lparr>documentId = contextId r, documentType = None,
                       document_seqId = None, document_textEmbedding = None,
                       document_text = None\<rparr>]\<rparr>"
    obtain out' where rec: "merge_document ?st1 rows = (st', out')"
      and out: "out = (r, c, length (documents st)) # out'"
      using Cons.prems unfolding row merge_document_new [OF False]
      by (cases "merge_document ?st1 rows") simp
    show ?thesis
      unfolding row out by (rule assms(3) [OF False rec Cons.IH [OF rec]])
  qed
qed

lemma merge_document_companies:
  "merge_document st rows = (st', out) \<Longrightarrow> companies st' = companies st \<and> has st' = has st"
  by (induction rule: merge_document_induct) simp_all

lemma merge_document_prefix:
  "merge_document st rows = (st', out) \<Longrightarrow> \<exists>extra. documents st' = documents st @ extra"
  by (induction rule: merge_document_induct) auto

lemma merge_document_ids:
  "merge_document st rows = (st', out) \<Longrightarrow>
     set (map documentId (documents st')) =
       set (map documentId (documents st)) \<union> (\<lambda>row. contextId (fst row)) ` set rows"
  by (induction rule: merge_document_induct) auto

lemma merge_document_distinct:
  "merge_document st rows = (st', out) \<Longrightarrow> distinct (map documentId (documents st)) \<Longrightarrow>
     distinct (map documentId (documents st'))"
  by (induction rule: merge_document_induct) auto

lemma merge_document_present:
  "merge_document st rows = (st', out) \<Longrightarrow>
     \<forall>row \<in> set rows. contextId (fst row) \<in> set (map documentId (documents st)) \<Longrightarrow> st' = st"
  by (induction rule: merge_document_induct) auto

lemma merge_document_out:
  "merge_document st rows = (st', out) \<Longrightarrow> (r, c, b) \<in> set out \<Longrightarrow>
     (r, c) \<in> set rows \<and> b < length (documents st') \<and> documentId (documents st' ! b) = contextId r"
proof (induction rule: merge_document_induct)
  case (Nil st)
  then show ?case by simp
next
  case (New st r' c' rows st' out)
  obtain extra where ex: "documents st' = (documents st @
       [\<lparr>documentId = contextId r', documentType = None, document_seqId = None,
         document_textEmbedding = None, document_text = None\<rparr>]) @ extra"
    using merge_document_prefix [OF New.hyps(2)] by auto
  show ?case
  proof (cases "(r, c, b) = (r', c', length (documents st))")
    case True
    then show ?thesis using ex by (simp add: nth_append)
  next
    case False
    then show ?thesis using New by auto
  qed
next
  case (Old st r' c' rows st' out)
  obtain extra where ex: "documents st' = documents st @ extra"
    using merge_document_prefix [OF Old.hyps(2)] by auto
  show ?case
  proof (cases "(r, c, b) \<in> set out")
    case True
    then show ?thesis using Old by auto
  next
    case False
    then have "r = r'" "c = c'" "b < length (documents st)" "documentId (documents st ! b) = contextId r'"
      using Old.prems by auto
    then show ?thesis using ex by (simp add: nth_append)
  qed
qed

lemma merge_document_bound:
  "merge_document st rows = (st', out) \<Longrightarrow> (r, c) \<in> set rows \<Longrightarrow> \<exists>b. (r, c, b) \<in> set out"
proof (induction rule: merge_document_induct)
  case (Nil st)
  then show ?case by simp
next
  case (New st r' c' rows st' out)
  then show ?case by auto
next
  case (Old st r' c' rows st' out)
  have "filter (\<lambda>b. documentId (documents st ! b) = contextId r') [0..<length (documents st)] \<noteq> []"
    using Old.hyps(1) matching_documents_empty [of "documents st" "contextId r'"] by simp
  then obtain b0 where "b0 \<in> set (filter (\<lambda>b. documentId (documents st ! b) = contextId r')
      [0..<length (documents st)])"
    by (cases "filter (\<lambda>b. documentId (documents st ! b) = contextId r') [0..<length (documents st)]") auto
  then show ?case using Old by auto
qed

lemma set_properties_frame:
  "companies (set_properties st rows) = companies st \<and> has (set_properties st rows) = has st"
  by (induction st rows rule: set_properties.induct) simp_all

lemma set_properties_ids:
  "map documentId (documents (set_properties st rows)) = map documentId (documents st)"
proof (induction st rows rule: set_properties.induct)
  case (1 st)
  then show ?case by simp
next
  case (2 st rcd c b rows)
  have "map documentId ((documents st)
          [b := (documents st ! b)
             \<lparr>documentType := Some ''FORM_10K_ITEM1'',
              document_seqId := Some (seqId rcd),
              document_textEmbedding := Some (textEmbedding rcd),
              document_text := Some (text' rcd)\<rparr>]) = map documentId (documents st)"
    by (cases "b < length (documents st)") (simp_all add: map_update list_update_same_conv list_update_beyond)
  then show ?case using 2 by simp
qed

lemma merge_has_frame:
  "companies (merge_has st rows) = companies st \<and> documents (merge_has st rows) = documents st"
  by (induction st rows rule: merge_has.induct) simp_all

lemma merge_has_set:
  "set (has (merge_has st rows)) = set (has st) \<union> (\<lambda>(r, c, b). (c, b)) ` set rows"
  by (induction st rows rule: merge_has.induct) auto

lemma has_company_iff:
  "has_company st r \<longleftrightarrow> (\<exists>c<length (companies st). company_cusip (companies st ! c) = cusip r)"
proof
  assume "has_company st r"
  then obtain x where x: "x \<in> set (companies st)" and eq: "company_cusip x = cusip r"
    unfolding has_company_def by blast
  from x obtain c where "c < length (companies st)" "companies st ! c = x"
    unfolding in_set_conv_nth by blast
  then show "\<exists>c<length (companies st). company_cusip (companies st ! c) = cusip r"
    using eq by blast
next
  assume "\<exists>c<length (companies st). company_cusip (companies st ! c) = cusip r"
  then obtain c where c: "c < length (companies st)" and eq: "company_cusip (companies st ! c) = cusip r"
    by blast
  have "companies st ! c \<in> set (companies st)" using c by simp
  then show "has_company st r" unfolding has_company_def using eq by blast
qed

lemma match_company_contextIds:
  "(\<lambda>row. contextId (fst row)) ` set (match_company st d) = contextId ` {r \<in> set d. has_company st r}"
proof (intro set_eqI iffI)
  fix x
  assume "x \<in> (\<lambda>row. contextId (fst row)) ` set (match_company st d)"
  then obtain row where row: "row \<in> set (match_company st d)" and x: "x = contextId (fst row)"
    by blast
  obtain r c where rc: "row = (r, c)" by (cases row)
  have "r \<in> set d" "has_company st r"
    using row unfolding rc set_match_company has_company_iff by blast+
  then show "x \<in> contextId ` {r \<in> set d. has_company st r}"
    using x rc by simp
next
  fix x
  assume "x \<in> contextId ` {r \<in> set d. has_company st r}"
  then obtain r where r: "r \<in> set d" "has_company st r" and x: "x = contextId r"
    by blast
  then obtain c where "c < length (companies st)" "company_cusip (companies st ! c) = cusip r"
    unfolding has_company_iff by blast
  then have "(r, c) \<in> set (match_company st d)"
    using r unfolding set_match_company by simp
  then show "x \<in> (\<lambda>row. contextId (fst row)) ` set (match_company st d)"
    using x by (metis fst_conv image_eqI)
qed

lemma upsert_query_Nil: "upsert_query st [] = (st, 0)"
  by (simp add: upsert_query_def match_company_def)

lemma upsert_query_filter:
  "upsert_query st (filter (has_company st) d) = upsert_query st d"
  by (simp add: upsert_query_def match_company_filter)

lemma upsert_query_companies: "companies (fst (upsert_query st d)) = companies st"
proof -
  obtain st1 rows1 where m: "merge_document st (match_company st d) = (st1, rows1)"
    by (cases "merge_document st (match_company st d)")
  show ?thesis
    using merge_document_companies [OF m]
    by (simp add: upsert_query_def m merge_has_frame set_properties_frame)
qed

lemma upsert_query_ids:
  "set (map documentId (documents (fst (upsert_query st d)))) =
     set (map documentId (documents st)) \<union> contextId ` {r \<in> set d. has_company st r}"
proof -
  obtain st1 rows1 where m: "merge_document st (match_company st d) = (st1, rows1)"
    by (cases "merge_document st (match_company st d)")
  have docs: "map documentId (documents (fst (upsert_query st d))) = map documentId (documents st1)"
    by (simp add: upsert_query_def m merge_has_frame set_properties_ids)
  show ?thesis
    using merge_document_ids [OF m] by (simp only: docs match_company_contextIds)
qed

lemma upsert_query_distinct:
  assumes "distinct (map documentId (documents st))"
  shows "distinct (map documentId (documents (fst (upsert_query st d))))"
proof -
  obtain st1 rows1 where m: "merge_document st (match_company st d) = (st1, rows1)"
    by (cases "merge_document st (match_company st d)")
  have docs: "map documentId (documents (fst (upsert_query st d))) = map documentId (documents st1)"
    by (simp add: upsert_query_def m merge_has_frame set_properties_ids)
  show ?thesis
    using merge_document_distinct [OF m assms] by (simp only: docs)
qed

lemma upsert_query_present:
  assumes "\<forall>r \<in> set d. has_company st r \<longrightarrow> contextId r \<in> set (map documentId (documents st))"
  shows "map documentId (documents (fst (upsert_query st d))) = map documentId (documents st)"
proof -
  obtain st1 rows1 where m: "merge_document st (match_company st d) = (st1, rows1)"
    by (cases "merge_document st (match_company st d)")
  have docs: "map documentId (documents (fst (upsert_query st d))) = map documentId (documents st1)"
    by (simp add: upsert_query_def m merge_has_frame set_properties_ids)
  have "contextId (fst row) \<in> set (map documentId (documents st))" if "row \<in> set (match_company st d)" for row
  proof -
    obtain r c where row: "row = (r, c)" by (cases row)
    have r: "r \<in> set d" and c: "c < length (companies st)"
      and eq: "company_cusip (companies st ! c) = cusip r"
      using that unfolding row set_match_company by auto
    have "has_company st r" unfolding has_company_iff using c eq by blast
    then show ?thesis using assms r row by simp
  qed
  then have "st1 = st"
    using merge_document_present [OF m] by blast
  then show ?thesis by (simp only: docs)
qed

lemma upsert_query_linked:
  assumes "r \<in> set d" and "c < length (companies st)"
    and "company_cusip (companies st ! c) = cusip r"
  shows "\<exists>b<length (documents (fst (upsert_query st d))).
           documentId (documents (fst (upsert_query st d)) ! b) = contextId r
           \<and> (c, b) \<in> set (has (fst (upsert_query st d)))"
proof -
  obtain st1 rows1 where m: "merge_document st (match_company st d) = (st1, rows1)"
    by (cases "merge_document st (match_company st d)")
  have fin: "fst (upsert_query st d) = merge_has (set_properties st1 rows1) rows1"
    by (simp add: upsert_query_def m)
  have docs: "map documentId (documents (fst (upsert_query st d))) = map documentId (documents st1)"
    by (simp add: fin merge_has_frame set_properties_ids)
  have "(r, c) \<in> set (match_company st d)"
    using assms unfolding set_match_company by simp
  then obtain b where b: "(r, c, b) \<in> set rows1"
    using merge_document_bound [OF m] by blast
  note o = merge_document_out [OF m b]
  have len: "length (documents (fst (upsert_query st d))) = length (documents st1)"
    using docs by (metis length_map)
  have "documentId (documents (fst (upsert_query st d)) ! b) = map documentId (documents st1) ! b"
    using o len docs by (metis nth_map)
  then have id: "documentId (documents (fst (upsert_query st d)) ! b) = contextId r"
    using o by simp
  have "(c, b) \<in> set (has (fst (upsert_query st d)))"
    using b unfolding fin merge_has_set by force
  then show ?thesis using id o len by auto
qed

lemma load_graph_foldl:
  "load_graph st emb_entries = foldl (\<lambda>s d. fst (upsert_query s d)) st (chunks emb_entries 100)"
  by (simp add: load_graph_def load_documents_def load_batches_state)

lemma has_company_cong: "companies s = companies st \<Longrightarrow> has_company s = has_company st"
  by (rule ext) (simp add: has_company_def)

lemma foldl_upsert_companies:
  "companies (foldl (\<lambda>s d. fst (upsert_query s d)) st ds) = companies st"
  by (induction ds arbitrary: st) (simp_all add: upsert_query_companies)

lemma foldl_upsert_ids:
  "set (map documentId (documents (foldl (\<lambda>s d. fst (upsert_query s d)) st ds))) =
     set (map documentId (documents st)) \<union> contextId ` {r \<in> set (concat ds). has_company st r}"
proof (induction ds arbitrary: st)
  case Nil
  then show ?case by simp
next
  case (Cons d ds)
  have hc: "has_company (fst (upsert_query st d)) = has_company st"
    by (rule has_company_cong) (rule upsert_query_companies)
  have "set (map documentId (documents (foldl (\<lambda>s d. fst (upsert_query s d)) st (d # ds)))) =
        (set (map documentId (documents st)) \<union> contextId ` {r \<in> set d. has_company st r})
          \<union> contextId ` {r \<in> set (concat ds). has_company st r}"
    using Cons.IH [of "fst (upsert_query st d)"] by (simp only: foldl_Cons hc upsert_query_ids)
  also have "\<dots> = set (map documentId (documents st))
          \<union> contextId ` {r \<in> set (concat (d # ds)). has_company st r}"
    by auto
  finally show ?case .
qed

lemma foldl_upsert_distinct:
  "distinct (map documentId (documents st)) \<Longrightarrow>
     distinct (map documentId (documents (foldl (\<lambda>s d. fst (upsert_query s d)) st ds)))"
  by (induction ds arbitrary: st) (simp_all add: upsert_query_distinct)

lemma foldl_upsert_present:
  assumes "\<forall>r \<in> set (concat ds). has_company st r \<longrightarrow> contextId r \<in> set (map documentId (documents st))"
  shows "map documentId (documents (foldl (\<lambda>s d. fst (upsert_query s d)) st ds)) =
           map documentId (documents st)"
  using assms
proof (induction ds arbitrary: st)
  case Nil
  then show ?case by simp
next
  case (Cons d ds)
  have hc: "has_company (fst (upsert_query st d)) = has_company st"
    by (rule has_company_cong) (rule upsert_query_companies)
  have d: "map documentId (documents (fst (upsert_query st d))) = map documentId (documents st)"
    using Cons.prems by (intro upsert_query_present) simp
  have "\<forall>r \<in> set (concat ds). has_company (fst (upsert_query st d)) r \<longrightarrow>
          contextId r \<in> set (map documentId (documents (fst (upsert_query st d))))"
    using Cons.prems by (simp add: hc d)
  then show ?case
    using Cons.IH [of "fst (upsert_query st d)"] d by simp
qed

lemma foldl_upsert_filter:
  "companies s = companies st \<Longrightarrow>
     foldl (\<lambda>s d. fst (upsert_query s d)) s (map (filter (has_company st)) ds) =
     foldl (\<lambda>s d. fst (upsert_query s d)) s ds"
proof (induction ds arbitrary: s)
  case Nil
  then show ?case by simp
next
  case (Cons d ds)
  have hc: "has_company st = has_company s"
    using Cons.prems by (intro has_company_cong) simp
  have "upsert_query s (filter (has_company st) d) = upsert_query s d"
    unfolding hc by (rule upsert_query_filter)
  moreover have "companies (fst (upsert_query s d)) = companies st"
    using Cons.prems by (simp add: upsert_query_companies)
  ultimately show ?case
    using Cons.IH [of "fst (upsert_query s d)"] by simp
qed

lemma foldl_upsert_empty:
  "\<forall>d \<in> set ds. d = [] \<Longrightarrow> foldl (\<lambda>s d. fst (upsert_query s d)) st ds = st"
  by (induction ds arbitrary: st) (simp_all add: upsert_query_Nil)


lemmas upsert_eval =
  load_graph_def load_documents_def chunks_def slice_def range_step.simps
  upsert_query_def match_company_def merge_document.simps(2) Let_def

text \<open>
  Claim C2. Loading the same entries a second time, into the store the first load left,
  creates no Document node: the store has as many Document nodes as after the first
  load, with the same \<open>documentId\<close>s in the same order. Every \<open>MERGE\<close> of the second load
  finds the node the first load made for that \<open>documentId\<close>; and when no two Document
  nodes shared a \<open>documentId\<close> before, none do afterwards.
\<close>

theorem load_graph_idempotent:
  "length (documents (load_graph (load_graph st emb_entries) emb_entries)) =
     length (documents (load_graph st emb_entries))
   \<and> map documentId (documents (load_graph (load_graph st emb_entries) emb_entries)) =
     map documentId (documents (load_graph st emb_entries))
   \<and> (distinct (map documentId (documents st)) \<longrightarrow>
        distinct (map documentId (documents (load_graph (load_graph st emb_entries) emb_entries))))"
proof -
  let ?st1 = "load_graph st emb_entries"
  have hc: "has_company ?st1 = has_company st"
    by (rule has_company_cong) (simp add: load_graph_foldl foldl_upsert_companies)
  have ids1: "set (map documentId (documents ?st1)) =
      set (map documentId (documents st))
        \<union> contextId ` {r \<in> set (concat (chunks emb_entries 100)). has_company st r}"
    by (simp only: load_graph_foldl foldl_upsert_ids)
  have "\<forall>r \<in> set (concat (chunks emb_entries 100)). has_company ?st1 r \<longrightarrow>
          contextId r \<in> set (map documentId (documents ?st1))"
    unfolding hc ids1 by blast
  then have ids: "map documentId (documents (load_graph ?st1 emb_entries)) = map documentId (documents ?st1)"
    unfolding load_graph_foldl [of ?st1] by (rule foldl_upsert_present)
  then have "length (documents (load_graph ?st1 emb_entries)) = length (documents ?st1)"
    by (metis length_map)
  moreover have "distinct (map documentId (documents (load_graph ?st1 emb_entries)))"
    if "distinct (map documentId (documents st))"
    using that by (simp add: load_graph_foldl foldl_upsert_distinct)
  ultimately show ?thesis using ids by blast
qed


theorem load_graph_idempotent_witness:
  "length (documents (load_graph (load_graph
      \<lparr>companies = [\<lparr>company_cusip = ''C1'', company_companyName = ''Acme''\<rparr>],
       documents = [], has = []\<rparr>
      [\<lparr>companyName = ''Acme'', cusip = ''C1'', seqId = 0, contextId = ''Acme0'',
        textEmbedding = [0::int], text' = ''ab''\<rparr>,
       \<lparr>companyName = ''Acme'', cusip = ''C1'', seqId = 1, contextId = ''Acme1'',
        textEmbedding = [1::int], text' = ''cd''\<rparr>])
      [\<lparr>companyName = ''Acme'', cusip = ''C1'', seqId = 0, contextId = ''Acme0'',
        textEmbedding = [0::int], text' = ''ab''\<rparr>,
       \<lparr>companyName = ''Acme'', cusip = ''C1'', seqId = 1, contextId = ''Acme1'',
        textEmbedding = [1::int], text' = ''cd''\<rparr>])) = 2
   \<and> distinct (map documentId (documents
      \<lparr>companies = [\<lparr>company_cusip = ''C1'', company_companyName = ''Acme''\<rparr>],
       documents = ([] :: int list document list), has = []\<rparr>))"
proof -
  have first: "map documentId (documents (load_graph
      \<lparr>companies = [\<lparr>company_cusip = ''C1'', company_companyName = ''Acme''\<rparr>],
       documents = [], has = []\<rparr>
      [\<lparr>companyName = ''Acme'', cusip = ''C1'', seqId = 0, contextId = ''Acme0'',
        textEmbedding = [0::int], text' = ''ab''\<rparr>,
       \<lparr>companyName = ''Acme'', cusip = ''C1'', seqId = 1, contextId = ''Acme1'',
        textEmbedding = [1::int], text' = ''cd''\<rparr>])) = [''Acme0'', ''Acme1'']"
    by (simp add: upsert_eval)
  have "length (map documentId (documents (load_graph
      \<lparr>companies = [\<lparr>company_cusip = ''C1'', company_companyName = ''Acme''\<rparr>],
       documents = [], has = []\<rparr>
      [\<lparr>companyName = ''Acme'', cusip = ''C1'', seqId = 0, contextId = ''Acme0'',
        textEmbedding = [0::int], text' = ''ab''\<rparr>,
       \<lparr>companyName = ''Acme'', cusip = ''C1'', seqId = 1, contextId = ''Acme1'',
        textEmbedding = [1::int], text' = ''cd''\<rparr>]))) = 2"
    by (simp only: first) simp
  then show ?thesis
    using load_graph_idempotent
      [of "\<lparr>companies = [\<lparr>company_cusip = ''C1'', company_companyName = ''Acme''\<rparr>],
           documents = [], has = []\<rparr>"
          "[\<lparr>companyName = ''Acme'', cusip = ''C1'', seqId = 0, contextId = ''Acme0'',
             textEmbedding = [0::int], text' = ''ab''\<rparr>,
            \<lparr>companyName = ''Acme'', cusip = ''C1'', seqId = 1, contextId = ''Acme1'',
             textEmbedding = [1::int], text' = ''cd''\<rparr>]"]
    by simp
qed

text \<open>
  Claim C10. A record whose \<open>cusip\<close> is that of no Company node yields no row after
  \<^verbatim>\<open>MATCH\<close>, so the clauses behind it never see it. The loading loop leaves the store as if
  such records had been removed from every batch; a batch gives the same result and
  \<open>cnt\<close> with or without such a record; a batch of one such record leaves the store as
  it was, with \<open>cnt = 0\<close> and no error; and when no entry has a Company node the whole
  load leaves the store as it was.
\<close>

theorem unmatched_records_dropped:
  "load_graph st emb_entries =
     foldl (\<lambda>s d. fst (upsert_query s d)) st (map (filter (has_company st)) (chunks emb_entries 100))
   \<and> (\<not> has_company st record \<longrightarrow> upsert_query st [record] = (st, 0))
   \<and> (\<not> has_company st record \<longrightarrow> upsert_query st (before @ record # after) = upsert_query st (before @ after))
   \<and> ((\<forall>r \<in> set emb_entries. \<not> has_company st r) \<longrightarrow> load_graph st emb_entries = st)"
proof -
  have a: "load_graph st emb_entries =
     foldl (\<lambda>s d. fst (upsert_query s d)) st (map (filter (has_company st)) (chunks emb_entries 100))"
    by (simp add: load_graph_foldl foldl_upsert_filter)
  have b: "upsert_query st [record] = (st, 0)" if "\<not> has_company st record"
    using upsert_query_filter [of st "[record]"] that by (simp add: upsert_query_Nil)
  have c: "upsert_query st (before @ record # after) = upsert_query st (before @ after)"
    if "\<not> has_company st record"
    using upsert_query_filter [of st "before @ record # after"]
      upsert_query_filter [of st "before @ after"] that by simp
  have d: "load_graph st emb_entries = st" if n: "\<forall>r \<in> set emb_entries. \<not> has_company st r"
  proof -
    have "filter (has_company st) d = []" if "d \<in> set (chunks emb_entries 100)" for d
    proof -
      have "set d \<subseteq> set (concat (chunks emb_entries 100))" using that by auto
      then have "set d \<subseteq> set emb_entries" by (simp add: concat_chunks)
      then show ?thesis using n by (auto simp: filter_empty_conv)
    qed
    then have "\<forall>d \<in> set (map (filter (has_company st)) (chunks emb_entries 100)). d = []"
      by auto
    then show ?thesis
      unfolding a by (rule foldl_upsert_empty)
  qed
  show ?thesis using a b c d by blast
qed

theorem unmatched_records_dropped_witness:
  "\<not> has_company
      \<lparr>companies = [\<lparr>company_cusip = ''C1'', company_companyName = ''Acme''\<rparr>],
       documents = [], has = []\<rparr>
      \<lparr>companyName = ''Zeta'', cusip = ''Z9'', seqId = 0, contextId = ''Zeta0'',
        textEmbedding = [0::int], text' = ''ab''\<rparr>
   \<and> upsert_query
      \<lparr>companies = [\<lparr>company_cusip = ''C1'', company_companyName = ''Acme''\<rparr>],
       documents = [], has = []\<rparr>
      [\<lparr>companyName = ''Zeta'', cusip = ''Z9'', seqId = 0, contextId = ''Zeta0'',
        textEmbedding = [0::int], text' = ''ab''\<rparr>]
     = (\<lparr>companies = [\<lparr>company_cusip = ''C1'', company_companyName = ''Acme''\<rparr>],
       documents = [], has = []\<rparr>, 0)
   \<and> load_graph
      \<lparr>companies = [\<lparr>company_cusip = ''C1'', company_companyName = ''Acme''\<rparr>],
       documents = [], has = []\<rparr>
      [\<lparr>companyName = ''Zeta'', cusip = ''Z9'', seqId = 0, contextId = ''Zeta0'',
        textEmbedding = [0::int], text' = ''ab''\<rparr>]
     = \<lparr>companies = [\<lparr>company_cusip = ''C1'', company_companyName = ''Acme''\<rparr>],
       documents = [], has = []\<rparr>"
proof -
  have n: "\<not> has_company
      \<lparr>companies = [\<lparr>company_cusip = ''C1'', company_companyName = ''Acme''\<rparr>],
       documents = ([] :: int list document list), has = []\<rparr>
      \<lparr>companyName = ''Zeta'', cusip = ''Z9'', seqId = 0, contextId = ''Zeta0'',
        textEmbedding = [0::int], text' = ''ab''\<rparr>"
    by (simp add: has_company_def)
  have a: "\<forall>r \<in> set [\<lparr>companyName = ''Zeta'', cusip = ''Z9'', seqId = 0, contextId = ''Zeta0'',
        textEmbedding = [0::int], text' = ''ab''\<rparr>]. \<not> has_company
      \<lparr>companies = [\<lparr>company_cusip = ''C1'', company_companyName = ''Acme''\<rparr>],
       documents = [], has = []\<rparr> r"
    using n by simp
  note t = unmatched_records_dropped
      [of "\<lparr>companies = [\<lparr>company_cusip = ''C1'', company_companyName = ''Acme''\<rparr>],
           documents = [], has = []\<rparr>"
          "[\<lparr>companyName = ''Zeta'', cusip = ''Z9'', seqId = 0, contextId = ''Zeta0'',
             textEmbedding = [0::int], text' = ''ab''\<rparr>]"
          "\<lparr>companyName = ''Zeta'', cusip = ''Z9'', seqId = 0, contextId = ''Zeta0'',
             textEmbedding = [0::int], text' = ''ab''\<rparr>" "[]" "[]"]
  show ?thesis
    by (intro conjI n t [THEN conjunct2, THEN conjunct1, THEN mp, OF n]
        t [THEN conjunct2, THEN conjunct2, THEN conjunct2, THEN mp, OF a])
qed

section \<open>The pipeline from a filing to the graph\<close>

lemma chunks_single:
  assumes "xs \<noteq> []" and "length xs \<le> nat (max 1 n)"
  shows "chunks xs n = [xs]"
proof -
  have pos: "0 < nat (max 1 n)" by simp
  have "range_step 0 (length xs) (nat (max 1 n)) = [0]"
    using assms pos
    by (subst range_step.simps, simp, subst range_step.simps, simp)
  then show ?thesis
    using assms by (simp add: chunks_def Let_def slice_def)
qed

lemma load_graph_single_batch:
  assumes "es \<noteq> []" and "length es \<le> 100"
  shows "load_graph st es = fst (upsert_query st es)"
proof -
  have "chunks es 100 = [es]"
    using assms by (intro chunks_single) auto
  then show ?thesis by (simp add: load_graph_foldl)
qed

lemma load_graph_fresh:
  assumes "documents st = []" and "es \<noteq> []" and "length es \<le> 100"
    and "\<forall>r \<in> set es. has_company st r"
  shows "set (map documentId (documents (load_graph st es))) = set (map contextId es)"
    and "length (documents (load_graph st es)) = card (set (map contextId es))"
proof -
  note load = load_graph_single_batch [OF assms(2,3), of st]
  have "{r \<in> set es. has_company st r} = set es"
    using assms(4) by blast
  then show s: "set (map documentId (documents (load_graph st es))) = set (map contextId es)"
    unfolding load upsert_query_ids by (simp add: assms(1))
  have d: "distinct (map documentId (documents (load_graph st es)))"
    unfolding load by (rule upsert_query_distinct) (simp add: assms(1))
  have "length (documents (load_graph st es)) = card (set (map documentId (documents (load_graph st es))))"
    using distinct_card [OF d] by simp
  then show "length (documents (load_graph st es)) = card (set (map contextId es))"
    by (simp only: s)
qed

text \<open>
  Claim C3, amended. The number of chunks is the splitter's answer, which the length of
  the text does not determine (see the counterexample below); the scenario holds for a
  description that the splitter divides into three chunks. A filing of company \<open>Acme\<close>
  with key \<open>C1\<close> has a description for which the splitter with chunk size 2000 and
  overlap 15 gives three chunks, and the embedding model answers the batch of the three
  with at least three vectors. Then the embedding cell returns three entries with the
  ids \<open>Acme0\<close>, \<open>Acme1\<close> and \<open>Acme2\<close>; and after the load into a store with a Company node
  \<open>c\<close> of \<open>cusip\<close> \<open>C1\<close>, each of the three ids is the \<open>documentId\<close> of a Document node
  with a \<open>HAS\<close> relationship from \<open>c\<close>. A store without Document nodes before holds
  exactly these three afterwards.
\<close>

theorem end_to_end_scenario:
  fixes get_embeddings :: "'m \<Rightarrow> string list \<Rightarrow> ('e + 'v list) \<times> 'm"
  assumes "splitter 2000 15 description = [d0, d1, d2]"
    and "get_embeddings m [d0, d1, d2] = (Inr embeddings, m')"
    and "3 \<le> length embeddings"
    and "c < length (companies st)"
    and "company_cusip (companies st ! c) = ''C1''"
  shows "\<exists>emb_entries.
           embed_filings splitter get_embeddings m []
             [\<lparr>item1 = description, f_companyName = ''Acme'', f_cusip = ''C1''\<rparr>]
             = (Inr emb_entries, m')
         \<and> length emb_entries = 3
         \<and> map contextId emb_entries = [''Acme0'', ''Acme1'', ''Acme2'']
         \<and> (\<forall>x \<in> {''Acme0'', ''Acme1'', ''Acme2''}.
               \<exists>b<length (documents (load_graph st emb_entries)).
                 documentId (documents (load_graph st emb_entries) ! b) = x
                 \<and> (c, b) \<in> set (has (load_graph st emb_entries)))
         \<and> (documents st = [] \<longrightarrow>
               length (documents (load_graph st emb_entries)) = 3
               \<and> set (map documentId (documents (load_graph st emb_entries)))
                   = {''Acme0'', ''Acme1'', ''Acme2''})"
proof -
  have ch: "chunks [d0, d1, d2] 3 = [[d0, d1, d2]]"
    by (rule chunks_single) simp_all
  have ok: "model_after get_embeddings m (chunks (splitter 2000 15 description) 3) = Some m'"
    using assms(2,3) by (simp add: assms(1) ch)
  obtain res where run:
    "create_text_embedding_entries splitter get_embeddings m description ''Acme'' ''C1'' = (Inr res, m')"
    using create_text_embedding_entries_total
      [of get_embeddings m splitter description m' "''Acme''" "''C1''"] ok by blast
  note f = create_text_embedding_entries_fields [OF run, unfolded assms(1)]
  have up: "[0..<3] = [0, 1, 2]" by (simp add: upt_rec)
  have ids: "map contextId res = [''Acme0'', ''Acme1'', ''Acme2'']"
    using f(2) by (simp add: up str_def str_nat.simps)
  have len: "length res = 3"
  proof -
    have "length (map contextId res) = 3" by (simp only: ids) simp
    then show ?thesis by simp
  qed
  have cus: "cusip r = ''C1''" if r: "r \<in> set res" for r
  proof -
    have "cusip r \<in> set (map cusip res)" using r by simp
    then show ?thesis unfolding f(6) by simp
  qed
  have filings: "embed_filings splitter get_embeddings m []
             [\<lparr>item1 = description, f_companyName = ''Acme'', f_cusip = ''C1''\<rparr>] = (Inr res, m')"
    by (simp add: run)
  have "chunks res 100 = [res]"
    using len by (intro chunks_single) auto
  then have load: "load_graph st res = fst (upsert_query st res)"
    by (simp add: load_graph_foldl)
  have linked: "\<exists>b<length (documents (load_graph st res)).
                 documentId (documents (load_graph st res) ! b) = x
                 \<and> (c, b) \<in> set (has (load_graph st res))"
    if x: "x \<in> {''Acme0'', ''Acme1'', ''Acme2''}" for x
  proof -
    have "x \<in> set (map contextId res)" using x by (simp only: ids) simp
    then obtain r where r: "r \<in> set res" and xr: "contextId r = x" by auto
    have "company_cusip (companies st ! c) = cusip r"
      using assms(5) cus [OF r] by simp
    then show ?thesis
      using upsert_query_linked [OF r assms(4), of ] xr unfolding load by simp
  qed
  have fresh: "length (documents (load_graph st res)) = 3
               \<and> set (map documentId (documents (load_graph st res))) = {''Acme0'', ''Acme1'', ''Acme2''}"
    if e: "documents st = []"
  proof -
    have hc: "has_company st r" if r: "r \<in> set res" for r
      unfolding has_company_iff using assms(4,5) cus [OF r] by auto
    then have "{r \<in> set res. has_company st r} = set res" by blast
    then have "set (map documentId (documents (load_graph st res))) = set (map contextId res)"
      unfolding load upsert_query_ids by (simp add: e)
    then have s: "set (map documentId (documents (load_graph st res))) = {''Acme0'', ''Acme1'', ''Acme2''}"
      by (simp only: ids) simp
    have d: "distinct (map documentId (documents (load_graph st res)))"
      unfolding load by (rule upsert_query_distinct) (simp add: e)
    have "length (documents (load_graph st res)) = card (set (map documentId (documents (load_graph st res))))"
      using distinct_card [OF d] by simp
    also have "\<dots> = 3" unfolding s by simp
    finally show ?thesis using s by simp
  qed
  have l: "\<forall>x \<in> {''Acme0'', ''Acme1'', ''Acme2''}.
               \<exists>b<length (documents (load_graph st res)).
                 documentId (documents (load_graph st res) ! b) = x
                 \<and> (c, b) \<in> set (has (load_graph st res))"
    by (intro ballI linked)
  have fr: "documents st = [] \<longrightarrow>
               length (documents (load_graph st res)) = 3
               \<and> set (map documentId (documents (load_graph st res)))
                   = {''Acme0'', ''Acme1'', ''Acme2''}"
    by (intro impI fresh)
  show ?thesis
    by (intro exI [of _ res] conjI filings len ids l fr)
qed

theorem end_to_end_scenario_witness:
  "length (replicate 5000 CHR ''x'') = 5000
   \<and> (\<exists>emb_entries.
         embed_filings
           (\<lambda>chunk_size chunk_overlap t.
              [take chunk_size t,
               take chunk_size (drop (chunk_size - chunk_overlap) t),
               drop (2 * (chunk_size - chunk_overlap)) t])
           (\<lambda>m d. (Inr (map length d) :: string + nat list, m)) () []
           [\<lparr>item1 = replicate 5000 CHR ''x'', f_companyName = ''Acme'', f_cusip = ''C1''\<rparr>]
           = (Inr emb_entries, ())
       \<and> length emb_entries = 3
       \<and> map contextId emb_entries = [''Acme0'', ''Acme1'', ''Acme2'']
       \<and> length (documents (load_graph
             \<lparr>companies = [\<lparr>company_cusip = ''C1'', company_companyName = ''Acme''\<rparr>],
              documents = [], has = []\<rparr> emb_entries)) = 3
       \<and> set (map documentId (documents (load_graph
             \<lparr>companies = [\<lparr>company_cusip = ''C1'', company_companyName = ''Acme''\<rparr>],
              documents = [], has = []\<rparr> emb_entries)))
           = {''Acme0'', ''Acme1'', ''Acme2''})"
proof -
  let ?text = "replicate 5000 CHR ''x''"
  let ?splitter = "\<lambda>chunk_size chunk_overlap t.
              [take chunk_size t,
               take chunk_size (drop (chunk_size - chunk_overlap) t),
               drop (2 * (chunk_size - chunk_overlap)) t]"
  let ?model = "\<lambda>m d. (Inr (map length d) :: string + nat list, m)"
  let ?d0 = "take 2000 ?text"
  let ?d1 = "take 2000 (drop (2000 - 15) ?text)"
  let ?d2 = "drop (2 * (2000 - 15)) ?text"
  let ?st = "\<lparr>companies = [\<lparr>company_cusip = ''C1'', company_companyName = ''Acme''\<rparr>],
              documents = ([] :: nat document list), has = []\<rparr>"
  have l: "length ?text = 5000" by simp
  have g: "?model () [?d0, ?d1, ?d2] = (Inr (map length [?d0, ?d1, ?d2]), ())" by simp
  have n: "3 \<le> length (map length [?d0, ?d1, ?d2])" by simp
  have c: "0 < length (companies ?st)" by simp
  have k: "company_cusip (companies ?st ! 0) = ''C1''" by simp
  from end_to_end_scenario
    [of ?splitter ?text ?d0 ?d1 ?d2 ?model "()" "map length [?d0, ?d1, ?d2]" "()" 0 ?st,
     OF refl g n c k]
  obtain emb_entries :: "nat entry list" where
    r: "embed_filings ?splitter ?model () []
          [\<lparr>item1 = ?text, f_companyName = ''Acme'', f_cusip = ''C1''\<rparr>] = (Inr emb_entries, ())"
      "length emb_entries = 3"
      "map contextId emb_entries = [''Acme0'', ''Acme1'', ''Acme2'']"
    and f: "documents ?st = [] \<longrightarrow>
       length (documents (load_graph ?st emb_entries)) = 3
       \<and> set (map documentId (documents (load_graph ?st emb_entries)))
           = {''Acme0'', ''Acme1'', ''Acme2''}"
    by (elim exE conjE)
  have e: "documents ?st = []" by simp
  note f' = f [THEN mp, OF e]
  show ?thesis
    by (intro conjI l exI [of _ emb_entries] r f' [THEN conjunct1] f' [THEN conjunct2])
qed

text \<open>
  As the spec words it, for every description of 5000 characters, the scenario fails.
  This description has 5000 characters in four paragraphs of 1249, 1249, 1248 and 1248
  characters with a blank line between them. The library's splitter cuts at the blank
  lines, and no two neighbouring paragraphs fit into a chunk of 2000 characters, so its
  chunks are the four paragraphs. The embedding cell then returns four entries,
  \<open>Acme0\<close> to \<open>Acme3\<close>, and the load puts four Document nodes into a store that had
  none.
\<close>

theorem end_to_end_scenario_counterexample:
  "length (replicate 1249 CHR ''a'' @ [CHR 0x0A, CHR 0x0A] @ replicate 1249 CHR ''b''
      @ [CHR 0x0A, CHR 0x0A] @ replicate 1248 CHR ''c'' @ [CHR 0x0A, CHR 0x0A]
      @ replicate 1248 CHR ''d'') = 5000
   \<and> embed_filings
        (\<lambda>chunk_size chunk_overlap t.
           [replicate 1249 CHR ''a'', replicate 1249 CHR ''b'',
            replicate 1248 CHR ''c'', replicate 1248 CHR ''d''])
        (\<lambda>m d. (Inr (map length d) :: string + nat list, m)) () []
        [\<lparr>item1 = replicate 1249 CHR ''a'' @ [CHR 0x0A, CHR 0x0A] @ replicate 1249 CHR ''b''
      @ [CHR 0x0A, CHR 0x0A] @ replicate 1248 CHR ''c'' @ [CHR 0x0A, CHR 0x0A]
      @ replicate 1248 CHR ''d'',
          f_companyName = ''Acme'', f_cusip = ''C1''\<rparr>]
      = (Inr [\<lparr>companyName = ''Acme'', cusip = ''C1'', seqId = 0, contextId = ''Acme0'',
           textEmbedding = 1249 :: nat, text' = replicate 1249 CHR ''a''\<rparr>,
         \<lparr>companyName = ''Acme'', cusip = ''C1'', seqId = 1, contextId = ''Acme1'',
           textEmbedding = 1249, text' = replicate 1249 CHR ''b''\<rparr>,
         \<lparr>companyName = ''Acme'', cusip = ''C1'', seqId = 2, contextId = ''Acme2'',
           textEmbedding = 1248, text' = replicate 1248 CHR ''c''\<rparr>,
         \<lparr>companyName = ''Acme'', cusip = ''C1'', seqId = 3, contextId = ''Acme3'',
           textEmbedding = 1248, text' = replicate 1248 CHR ''d''\<rparr>], ())
   \<and> length (documents (load_graph
        \<lparr>companies = [\<lparr>company_cusip = ''C1'', company_companyName = ''Acme''\<rparr>],
         documents = [], has = []\<rparr>
        [\<lparr>companyName = ''Acme'', cusip = ''C1'', seqId = 0, contextId = ''Acme0'',
           textEmbedding = 1249 :: nat, text' = replicate 1249 CHR ''a''\<rparr>,
         \<lparr>companyName = ''Acme'', cusip = ''C1'', seqId = 1, contextId = ''Acme1'',
           textEmbedding = 1249, text' = replicate 1249 CHR ''b''\<rparr>,
         \<lparr>companyName = ''Acme'', cusip = ''C1'', seqId = 2, contextId = ''Acme2'',
           textEmbedding = 1248, text' = replicate 1248 CHR ''c''\<rparr>,
         \<lparr>companyName = ''Acme'', cusip = ''C1'', seqId = 3, contextId = ''Acme3'',
           textEmbedding = 1248, text' = replicate 1248 CHR ''d''\<rparr>])) = 4"
proof (intro conjI)
  show "length (replicate 1249 CHR ''a'' @ [CHR 0x0A, CHR 0x0A] @ replicate 1249 CHR ''b''
      @ [CHR 0x0A, CHR 0x0A] @ replicate 1248 CHR ''c'' @ [CHR 0x0A, CHR 0x0A]
      @ replicate 1248 CHR ''d'') = 5000"
    by simp
next
  show "embed_filings
        (\<lambda>chunk_size chunk_overlap t.
           [replicate 1249 CHR ''a'', replicate 1249 CHR ''b'',
            replicate 1248 CHR ''c'', replicate 1248 CHR ''d''])
        (\<lambda>m d. (Inr (map length d) :: string + nat list, m)) () []
        [\<lparr>item1 = replicate 1249 CHR ''a'' @ [CHR 0x0A, CHR 0x0A] @ replicate 1249 CHR ''b''
      @ [CHR 0x0A, CHR 0x0A] @ replicate 1248 CHR ''c'' @ [CHR 0x0A, CHR 0x0A]
      @ replicate 1248 CHR ''d'',
          f_companyName = ''Acme'', f_cusip = ''C1''\<rparr>]
      = (Inr [\<lparr>companyName = ''Acme'', cusip = ''C1'', seqId = 0, contextId = ''Acme0'',
           textEmbedding = 1249 :: nat, text' = replicate 1249 CHR ''a''\<rparr>,
         \<lparr>companyName = ''Acme'', cusip = ''C1'', seqId = 1, contextId = ''Acme1'',
           textEmbedding = 1249, text' = replicate 1249 CHR ''b''\<rparr>,
         \<lparr>companyName = ''Acme'', cusip = ''C1'', seqId = 2, contextId = ''Acme2'',
           textEmbedding = 1248, text' = replicate 1248 CHR ''c''\<rparr>,
         \<lparr>companyName = ''Acme'', cusip = ''C1'', seqId = 3, contextId = ''Acme3'',
           textEmbedding = 1248, text' = replicate 1248 CHR ''d''\<rparr>], ())"
    by (simp add: create_text_embedding_entries_def chunks_def slice_def range_step.simps
        append_entries.simps str_def str_nat.simps)
next
  let ?st = "\<lparr>companies = [\<lparr>company_cusip = ''C1'', company_companyName = ''Acme''\<rparr>],
         documents = [], has = []\<rparr> :: nat store"
  let ?es = "[\<lparr>companyName = ''Acme'', cusip = ''C1'', seqId = 0, contextId = ''Acme0'',
           textEmbedding = 1249 :: nat, text' = replicate 1249 CHR ''a''\<rparr>,
         \<lparr>companyName = ''Acme'', cusip = ''C1'', seqId = 1, contextId = ''Acme1'',
           textEmbedding = 1249, text' = replicate 1249 CHR ''b''\<rparr>,
         \<lparr>companyName = ''Acme'', cusip = ''C1'', seqId = 2, contextId = ''Acme2'',
           textEmbedding = 1248, text' = replicate 1248 CHR ''c''\<rparr>,
         \<lparr>companyName = ''Acme'', cusip = ''C1'', seqId = 3, contextId = ''Acme3'',
           textEmbedding = 1248, text' = replicate 1248 CHR ''d''\<rparr>]"
  have "length (documents (load_graph ?st ?es)) = card (set (map contextId ?es))"
    by (rule load_graph_fresh(2)) (simp_all add: has_company_def)
  then show "length (documents (load_graph ?st ?es)) = 4"
    by simp
qed

section \<open>Properties of the chat wrapper\<close>

text \<open>
  Claim C5. \<open>chat_response\<close> returns the completion of the model as it is when the call
  succeeds, and the fixed apology when the call raises an exception \<open>e\<close>, whatever \<open>e\<close>
  is; so it does for a stub that raises on the input \<open>trigger-error\<close>. Its result is a
  string: no exception leaves it.
\<close>

theorem chat_response_apology:
  "(agent_chain m input_text = (Inr completion, m') \<longrightarrow>
      chat_response agent_chain m input_text history = (completion, m'))
   \<and> (agent_chain m input_text = (Inl e, m') \<longrightarrow>
      chat_response agent_chain m input_text history =
        (''I'm sorry, there was an error retrieving the information you requested.'', m'))
   \<and> (stub s ''trigger-error'' = (Inl e', s') \<longrightarrow>
      fst (chat_response stub s ''trigger-error'' history) =
        ''I'm sorry, there was an error retrieving the information you requested.'')"
  by (simp add: chat_response_def apology_def)


theorem chat_response_apology_witness:
  "fst (chat_response (\<lambda>m t. if t = ''trigger-error'' then (Inl ''quota'', m) else (Inr (''answer to '' @ t), m))
      () ''trigger-error'' [(''hello'', ''hi'')]) =
     ''I'm sorry, there was an error retrieving the information you requested.''
   \<and> fst (chat_response (\<lambda>m t. if t = ''trigger-error'' then (Inl ''quota'', m) else (Inr (''answer to '' @ t), m))
      () ''hello'' []) = ''answer to hello''"
  using chat_response_apology
    [of "\<lambda>m t. if t = ''trigger-error'' then (Inl ''quota'', m) else (Inr (''answer to '' @ t), m)"
        "()" "''hello''" "''answer to hello''" "()" "[]" "''quota''"
        "\<lambda>m t. if t = ''trigger-error'' then (Inl ''quota'', m) else (Inr (''answer to '' @ t), m)"
        "()" "''quota''" "()"]
    chat_response_apology
    [of "\<lambda>m t. if t = ''trigger-error'' then (Inl ''quota'', m) else (Inr (''answer to '' @ t), m)"
        "()" "''trigger-error''" "''x''" "()" "[(''hello'', ''hi'')]" "''quota''"
        "\<lambda>m t. if t = ''trigger-error'' then (Inl ''quota'', m) else (Inr (''answer to '' @ t), m)"
        "()" "''quota''" "()"]
  by simp


text \<open>
  Claim C9. The result of \<open>chat_response\<close> and the state it leaves the model in are the
  same for any two histories; a model that records its prompts has received the input
  text and nothing else.
\<close>

theorem chat_response_ignores_history:
  "chat_response agent_chain m input_text h1 = chat_response agent_chain m input_text h2
   \<and> snd (chat_response (\<lambda>prompts t. (reply prompts t, prompts @ [t])) prompts input_text h1) =
       prompts @ [input_text]"
  by (simp add: chat_response_def split: sum.split prod.split)


theorem chat_response_ignores_history_witness:
  "chat_response (\<lambda>m t. (Inr (''answer to '' @ t) :: string + string, Suc m)) (0::nat) ''hello''
      [(''earlier'', ''answer to earlier'')] =
   chat_response (\<lambda>m t. (Inr (''answer to '' @ t) :: string + string, Suc m)) 0 ''hello'' []
   \<and> snd (chat_response (\<lambda>prompts t. (Inr (''answer to '' @ t) :: string + string, prompts @ [t]))
        [''earlier''] ''hello'' [(''earlier'', ''answer to earlier'')]) = [''earlier'', ''hello'']"
  using chat_response_ignores_history
    [of "\<lambda>m t. (Inr (''answer to '' @ t) :: string + string, Suc m)" "0::nat" "''hello''"
        "[(''earlier'', ''answer to earlier'')]" "[]"
        "\<lambda>prompts t. (Inr (''answer to '' @ t) :: string + string)" "[''earlier'']"]
  by simp

end
